theory Spec2Isabelle
  imports Complex_Main "HOL-Library.Word" "HOL-Library.Sublist"
begin

unbundle bit_operations_syntax

section \<open>Packed cells\<close>

text \<open>
  Every use of a cell value in \<open>segmentrenderer.js\<close> goes through a bitwise operator
  (\<open>data >> 8\<close>, \<open>(data >> 16) & 0xFF\<close>, \<open>data & 0xFFFF\<close>), which first applies ToInt32.
  A cell is therefore modelled by its ToInt32 image, a 32-bit word; \<open>>>\<close> is the
  arithmetic shift and its result is read as a signed number. The element type of
  \<open>blockData\<close> is declared in \<open>blk.env.Chunk\<close>, outside this file, so no narrower width
  is built into the model; where a property needs an id to fit the 16-bit neighbour
  buffer \<open>tmpFaces_\<close> it says so.
\<close>

type_synonym cell = "32 word"

definition cellId :: "cell \<Rightarrow> int" where
  \<comment> \<open>\<open>data >> 8\<close>\<close>
  "cellId data = sint (signed_drop_bit 8 data)"

definition cellMeta :: "cell \<Rightarrow> cell" where
  \<comment> \<open>\<open>(data >> 16) & 0xFF\<close>\<close>
  "cellMeta data = signed_drop_bit 16 data AND 0xFF"

definition cellVariant :: "cell \<Rightarrow> cell" where
  \<comment> \<open>\<open>data & 0xFFFF\<close>\<close>
  "cellVariant data = data AND 0xFFFF"

definition toUint16 :: "int \<Rightarrow> 16 word" where
  \<comment> \<open>a store into \<open>tmpFaces_\<close>, a \<open>Uint16Array\<close>: the number modulo \<open>2 ^ 16\<close>\<close>
  "toUint16 k = word_of_int k"

definition readData :: "cell list \<Rightarrow> int \<Rightarrow> cell" where
  \<comment> \<open>\<open>blockData[i]\<close>; out of range the read is \<open>undefined\<close>, whose ToInt32 is 0\<close>
  "readData bd i = (if 0 \<le> i \<and> i < int (length bd) then bd ! nat i else 0)"

section \<open>Collaborators\<close>

type_synonym texcoords = "real list"

record block =
  material_flags :: "32 word"
  getFaceSlot :: "int \<Rightarrow> int \<Rightarrow> int \<Rightarrow> nat \<Rightarrow> cell \<Rightarrow> cell \<Rightarrow> int"

record chunk =
  chunk_x :: int
  chunk_y :: int
  chunk_z :: int
  blockData :: "cell list"
  getBlock :: "int \<Rightarrow> int \<Rightarrow> int \<Rightarrow> cell"

text \<open>
  The constants of \<open>blk.env.Chunk\<close> and \<open>blk.env.MaterialFlags\<close>, the block set, the
  texture atlas and the view are not part of \<open>segmentrenderer.js\<close>; they are parameters.
  \<open>getBlockWithId\<close> and \<open>getChunk\<close> may answer \<open>undefined\<close>/\<open>null\<close> (\<open>None\<close>).
\<close>

record env =
  STRIDE_Z :: int
  STRIDE_Y :: int
  SIZE_Y :: int
  SIZE_XZ :: int
  MERGE :: "32 word"
  getBlockWithId :: "int \<Rightarrow> block option"
  getSlotCoords :: "int \<Rightarrow> texcoords"
  getChunk :: "int \<Rightarrow> int \<Rightarrow> int \<Rightarrow> chunk option"

definition SIZE :: int where
  "SIZE = 16"

section \<open>Calls made by the mesher, and errors\<close>

datatype error = TypeError

datatype event =
    GetBlockWithId int
  | GetFaceSlot int int int int nat cell cell
  | AddFace nat int int int texcoords

type_synonym run = "event list \<times> error option"

fun forEach :: "('a \<Rightarrow> run) \<Rightarrow> 'a list \<Rightarrow> run" where
  "forEach f [] = ([], None)"
| "forEach f (x # xs) =
     (case f x of
        (es, Some e) \<Rightarrow> (es, Some e)
      | (es, None) \<Rightarrow> (case forEach f xs of (es', r) \<Rightarrow> (es @ es', r)))"

definition after :: "event list \<Rightarrow> run \<Rightarrow> run" where
  "after es r = (es @ fst r, snd r)"

section \<open>The face loop shared by both passes\<close>

definition emitFace :: "env \<Rightarrow> int \<Rightarrow> block option \<Rightarrow> int \<Rightarrow> int \<Rightarrow> int \<Rightarrow> cell \<Rightarrow> nat \<Rightarrow> run" where
  "emitFace e this_by blk bx by bz data n =
     (case blk of
        None \<Rightarrow> ([], Some TypeError)
      | Some b \<Rightarrow>
          (let slot = getFaceSlot b bx by bz n (cellMeta data) (cellVariant data) in
           ([GetFaceSlot (cellId data) bx by bz n (cellMeta data) (cellVariant data),
             AddFace n bx (by - this_by) bz (getSlotCoords e slot)], None)))"

definition faceStep :: "env \<Rightarrow> int \<Rightarrow> block option \<Rightarrow> int \<Rightarrow> int \<Rightarrow> int \<Rightarrow> cell \<Rightarrow> 16 word list \<Rightarrow> nat \<Rightarrow> run" where
  "faceStep e this_by blk bx by bz data neighbors n =
     (if uint (neighbors ! n) = 0 then emitFace e this_by blk bx by bz data n
      else if uint (neighbors ! n) \<noteq> cellId data then
        after [GetBlockWithId (uint (neighbors ! n))]
          (case getBlockWithId e (uint (neighbors ! n)) of
             None \<Rightarrow> ([], Some TypeError)
           | Some m \<Rightarrow>
               if material_flags m AND MERGE e \<noteq> 0
               then emitFace e this_by blk bx by bz data n
               else ([], None))
      else ([], None))"

definition faceLoop :: "env \<Rightarrow> int \<Rightarrow> int \<Rightarrow> int \<Rightarrow> int \<Rightarrow> cell \<Rightarrow> 16 word list \<Rightarrow> run" where
  "faceLoop e this_by bx by bz data neighbors =
     after [GetBlockWithId (cellId data)]
       (forEach (faceStep e this_by (getBlockWithId e (cellId data)) bx by bz data neighbors) [0..<6])"

section \<open>The interior pass of build\<close>

definition interiorCell :: "env \<Rightarrow> chunk \<Rightarrow> int \<Rightarrow> int \<Rightarrow> int \<Rightarrow> int \<Rightarrow> run" where
  "interiorCell e c this_by by bz bx =
     (let blockData = blockData c;
          bo = bx + bz * STRIDE_Z e + by * STRIDE_Y e;
          data = readData blockData bo in
      if cellId data = 0 then ([], None)
      else
        faceLoop e this_by bx by bz data
          [toUint16 (cellId (readData blockData (bo + STRIDE_Z e))),
           toUint16 (cellId (readData blockData (bo - STRIDE_Z e))),
           toUint16 (if by \<ge> SIZE_Y e - 1 then 0 else cellId (readData blockData (bo + STRIDE_Y e))),
           toUint16 (cellId (if by \<le> 0 then data else readData blockData (bo - STRIDE_Y e))),
           toUint16 (cellId (readData blockData (bo + 1))),
           toUint16 (cellId (readData blockData (bo - 1)))])"

definition interiorPass :: "env \<Rightarrow> chunk \<Rightarrow> int \<Rightarrow> run" where
  "interiorPass e c this_by =
     forEach (\<lambda>by.
       forEach (\<lambda>bz.
         forEach (\<lambda>bx. interiorCell e c this_by by bz bx) [1..SIZE - 2])
       [1..SIZE - 2])
     [this_by..this_by + SIZE - 1]"

section \<open>The boundary pass: \<open>addFaces_\<close>\<close>

definition neighborBlockId :: "chunk option \<Rightarrow> int \<Rightarrow> int \<Rightarrow> int \<Rightarrow> int" where
  \<comment> \<open>\<open>neighborChunks[i] ? neighborChunks[i].getBlock(x, y, z) >> 8 : 0\<close>\<close>
  "neighborBlockId nc x y z = (case nc of None \<Rightarrow> 0 | Some c' \<Rightarrow> cellId (getBlock c' x y z))"

definition addFacesCell :: "env \<Rightarrow> chunk \<Rightarrow> int \<Rightarrow> int \<Rightarrow> int \<Rightarrow> chunk option list \<Rightarrow> int \<Rightarrow> run" where
  "addFacesCell e c this_by bx bz neighborChunks by =
     (let blockData = blockData c;
          cx = chunk_x c;
          cz = chunk_z c;
          bo = bx + bz * STRIDE_Z e + by * STRIDE_Y e;
          data = readData blockData bo in
      if cellId data = 0 then ([], None)
      else
        faceLoop e this_by bx by bz data
          [toUint16 (if bz = SIZE - 1
                     then neighborBlockId (neighborChunks ! 3) (cx + bx) by (cz + bz + 1)
                     else cellId (readData blockData (bo + STRIDE_Z e))),
           toUint16 (if bz = 0
                     then neighborBlockId (neighborChunks ! 2) (cx + bx) by (cz + bz - 1)
                     else cellId (readData blockData (bo - STRIDE_Z e))),
           toUint16 (if by \<ge> SIZE_Y e - 1 then 0 else cellId (readData blockData (bo + STRIDE_Y e))),
           toUint16 (cellId (if by \<le> 0 then data else readData blockData (bo - STRIDE_Y e))),
           toUint16 (if bx = SIZE - 1
                     then neighborBlockId (neighborChunks ! 1) (cx + bx + 1) by (cz + bz)
                     else cellId (readData blockData (bo + 1))),
           toUint16 (if bx = 0
                     then neighborBlockId (neighborChunks ! 0) (cx + bx - 1) by (cz + bz)
                     else cellId (readData blockData (bo - 1)))])"

definition addFaces :: "env \<Rightarrow> chunk \<Rightarrow> int \<Rightarrow> int \<Rightarrow> int \<Rightarrow> int \<Rightarrow> int \<Rightarrow> chunk option list \<Rightarrow> run" where
  "addFaces e c this_by bx bymin bymax bz neighborChunks =
     forEach (addFacesCell e c this_by bx bz neighborChunks) [bymin..bymax]"

definition neighborChunksOf :: "env \<Rightarrow> chunk \<Rightarrow> chunk option list" where
  "neighborChunksOf e c =
     [getChunk e (chunk_x c - SIZE_XZ e) (chunk_y c) (chunk_z c),
      getChunk e (chunk_x c + SIZE_XZ e) (chunk_y c) (chunk_z c),
      getChunk e (chunk_x c) (chunk_y c) (chunk_z c - SIZE_XZ e),
      getChunk e (chunk_x c) (chunk_y c) (chunk_z c + SIZE_XZ e)]"

definition ringCells :: "(int \<times> int) list" where
  \<comment> \<open>the \<open>(bx, bz)\<close> arguments of the four \<open>addFaces_\<close> loops, in call order\<close>
  "ringCells =
     map (\<lambda>bz. (0, bz)) [0..SIZE - 2] @
     map (\<lambda>bx. (bx, SIZE - 1)) [0..SIZE - 2] @
     map (\<lambda>bz. (SIZE - 1, bz)) [1..SIZE - 1] @
     map (\<lambda>bx. (bx, 0)) [1..SIZE - 1]"

definition boundaryPass :: "env \<Rightarrow> chunk \<Rightarrow> int \<Rightarrow> run" where
  "boundaryPass e c this_by =
     (let neighborChunks = neighborChunksOf e c;
          bymin = this_by;
          bymax = this_by + SIZE - 1 in
      forEach (\<lambda>(bx, bz). addFaces e c this_by bx bymin bymax bz neighborChunks) ringCells)"

definition buildEvents :: "env \<Rightarrow> chunk \<Rightarrow> int \<Rightarrow> run" where
  "buildEvents e c this_by =
     forEach (\<lambda>pass. pass e c this_by) [interiorPass, boundaryPass]"


section \<open>The accessor and the visibility rule, as the specification words them\<close>

definition cellAt :: "env \<Rightarrow> chunk \<Rightarrow> int \<Rightarrow> int \<Rightarrow> int \<Rightarrow> cell" where
  "cellAt e c bx by bz = readData (blockData c) (bx + bz * STRIDE_Z e + by * STRIDE_Y e)"

definition lateralId :: "env \<Rightarrow> int \<Rightarrow> int \<Rightarrow> int \<Rightarrow> int \<Rightarrow> int \<Rightarrow> int \<Rightarrow> int" where
  \<comment> \<open>the id at world position \<open>(x, y, z)\<close> of the chunk at \<open>(nx, ny, nz)\<close>; air when that
      chunk is not loaded\<close>
  "lateralId e nx ny nz x y z =
     (case getChunk e nx ny nz of None \<Rightarrow> 0 | Some c' \<Rightarrow> cellId (getBlock c' x y z))"

definition neighborId :: "env \<Rightarrow> chunk \<Rightarrow> int \<Rightarrow> int \<Rightarrow> int \<Rightarrow> nat \<Rightarrow> int" where
  \<comment> \<open>the block id of the neighbour of cell \<open>(bx, by, bz)\<close> in direction \<open>n\<close>, the faces
      in the order +Z, -Z, +Y, -Y, +X, -X: a lateral neighbour beyond the chunk edge is read
      from the neighbour chunk; above the top is air; below the bottom is the cell itself\<close>
  "neighborId e c bx by bz n =
     (if n = 0 then
        (if bz = SIZE - 1
         then lateralId e (chunk_x c) (chunk_y c) (chunk_z c + SIZE_XZ e)
                (chunk_x c + bx) by (chunk_z c + bz + 1)
         else cellId (cellAt e c bx by (bz + 1)))
      else if n = 1 then
        (if bz = 0
         then lateralId e (chunk_x c) (chunk_y c) (chunk_z c - SIZE_XZ e)
                (chunk_x c + bx) by (chunk_z c + bz - 1)
         else cellId (cellAt e c bx by (bz - 1)))
      else if n = 2 then
        (if by \<ge> SIZE_Y e - 1 then 0 else cellId (cellAt e c bx (by + 1) bz))
      else if n = 3 then
        (if by \<le> 0 then cellId (cellAt e c bx by bz) else cellId (cellAt e c bx (by - 1) bz))
      else if n = 4 then
        (if bx = SIZE - 1
         then lateralId e (chunk_x c + SIZE_XZ e) (chunk_y c) (chunk_z c)
                (chunk_x c + bx + 1) by (chunk_z c + bz)
         else cellId (cellAt e c (bx + 1) by bz))
      else if n = 5 then
        (if bx = 0
         then lateralId e (chunk_x c - SIZE_XZ e) (chunk_y c) (chunk_z c)
                (chunk_x c + bx - 1) by (chunk_z c + bz)
         else cellId (cellAt e c (bx - 1) by bz))
      else 0)"

definition crossing :: "int \<Rightarrow> int \<Rightarrow> nat \<Rightarrow> bool" where
  \<comment> \<open>the neighbour of a cell at \<open>(bx, bz)\<close> in direction \<open>n\<close> lies in a neighbour chunk\<close>
  "crossing bx bz n =
     ((n = 0 \<and> bz = SIZE - 1) \<or> (n = 1 \<and> bz = 0) \<or> (n = 4 \<and> bx = SIZE - 1) \<or> (n = 5 \<and> bx = 0))"

definition neighborChunk :: "env \<Rightarrow> chunk \<Rightarrow> nat \<Rightarrow> chunk option" where
  \<comment> \<open>the chunk a lateral direction leads into, as the view answers for it\<close>
  "neighborChunk e c n =
     (if n = 0 then getChunk e (chunk_x c) (chunk_y c) (chunk_z c + SIZE_XZ e)
      else if n = 1 then getChunk e (chunk_x c) (chunk_y c) (chunk_z c - SIZE_XZ e)
      else if n = 4 then getChunk e (chunk_x c + SIZE_XZ e) (chunk_y c) (chunk_z c)
      else if n = 5 then getChunk e (chunk_x c - SIZE_XZ e) (chunk_y c) (chunk_z c)
      else None)"

definition neighborCell :: "chunk \<Rightarrow> chunk \<Rightarrow> int \<Rightarrow> int \<Rightarrow> int \<Rightarrow> nat \<Rightarrow> cell" where
  \<comment> \<open>the cell that neighbour chunk \<open>c'\<close> holds next to cell \<open>(bx, by, bz)\<close> of chunk \<open>c\<close>
      in a lateral direction\<close>
  "neighborCell c c' bx by bz n =
     (if n = 0 then getBlock c' (chunk_x c + bx) by (chunk_z c + bz + 1)
      else if n = 1 then getBlock c' (chunk_x c + bx) by (chunk_z c + bz - 1)
      else if n = 4 then getBlock c' (chunk_x c + bx + 1) by (chunk_z c + bz)
      else getBlock c' (chunk_x c + bx - 1) by (chunk_z c + bz))"

definition hasMerge :: "env \<Rightarrow> int \<Rightarrow> bool" where
  \<comment> \<open>the material of block \<open>i\<close> carries the MERGE flag\<close>
  "hasMerge e i =
     (case getBlockWithId e i of None \<Rightarrow> False | Some m \<Rightarrow> material_flags m AND MERGE e \<noteq> 0)"

definition faceVisible :: "env \<Rightarrow> int \<Rightarrow> int \<Rightarrow> bool" where
  \<comment> \<open>the neighbour is empty, or it is a different block type whose material merges\<close>
  "faceVisible e ownId nbId = (nbId = 0 \<or> (nbId \<noteq> ownId \<and> hasMerge e nbId))"

definition fitsUint16 :: "int \<Rightarrow> bool" where
  "fitsUint16 i = (0 \<le> i \<and> i < 65536)"

section \<open>A single-path reference mesher\<close>

definition referenceInterior :: "env \<Rightarrow> chunk \<Rightarrow> int \<Rightarrow> run" where
  \<comment> \<open>the interior scan, every cell handled by the boundary path's cell body\<close>
  "referenceInterior e c this_by =
     forEach (\<lambda>by.
       forEach (\<lambda>bz.
         forEach (\<lambda>bx. addFacesCell e c this_by bx bz (neighborChunksOf e c) by) [1..SIZE - 2])
       [1..SIZE - 2])
     [this_by..this_by + SIZE - 1]"

definition referenceEvents :: "env \<Rightarrow> chunk \<Rightarrow> int \<Rightarrow> run" where
  "referenceEvents e c this_by =
     forEach (\<lambda>pass. pass e c this_by) [referenceInterior, boundaryPass]"

section \<open>Emitted faces and their order\<close>

fun isAddFace :: "event \<Rightarrow> bool" where
  "isAddFace (AddFace n x y z t) = True"
| "isAddFace _ = False"

definition facesOf :: "event list \<Rightarrow> event list" where
  "facesOf es = filter isAddFace es"

fun faceY :: "event \<Rightarrow> int" where
  "faceY (AddFace n x y z t) = y"
| "faceY _ = 0"

fun faceKey :: "event \<Rightarrow> int \<times> int \<times> int \<times> nat" where
  \<comment> \<open>segment-local \<open>(x, y, z)\<close> and direction of a face\<close>
  "faceKey (AddFace n x y z t) = (x, y, z, n)"
| "faceKey _ = (0, 0, 0, 0)"

definition keysOf :: "event list \<Rightarrow> (int \<times> int \<times> int \<times> nat) list" where
  \<comment> \<open>position and direction of the faces among some events, in order\<close>
  "keysOf es = map faceKey (facesOf es)"

definition interiorOrder :: "(int \<times> int \<times> int \<times> nat) list" where
  \<comment> \<open>Y ascending, then Z, then X, then the direction\<close>
  "interiorOrder =
     concat (map (\<lambda>y. concat (map (\<lambda>z. concat (map (\<lambda>x. map (\<lambda>n. (x, y, z, n)) [0..<6])
       [1..SIZE - 2])) [1..SIZE - 2])) [0..SIZE - 1])"

definition boundaryOrder :: "(int \<times> int \<times> int \<times> nat) list" where
  \<comment> \<open>ring position first, then Y ascending, then the direction\<close>
  "boundaryOrder =
     concat (map (\<lambda>(x, z). concat (map (\<lambda>y. map (\<lambda>n. (x, y, z, n)) [0..<6])
       [0..SIZE - 1])) ringCells)"

section \<open>The segment renderer and its graphics context\<close>

text \<open>
  The fields of \<open>blk.env.client.SegmentRenderer\<close>, private ones without their trailing
  underscore (\<open>faceBuffer\<close> for \<open>faceBuffer_\<close>, \<open>addFaces\<close> for \<open>addFaces_\<close>), \<open>seg_by\<close> for
  \<open>this.by\<close>. The graphics context holds what the calls on \<open>gl\<close>, \<open>goog.dispose\<close> and the
  shared block builder act on: the live GL buffers, the live line buffers, the faces the
  builder has accumulated and the draw calls issued. The base class's \<open>discard\<close> is taken
  not to touch the fields below.
\<close>

record glbuffer =
  handle :: nat
  byteSize :: int

record renderer =
  chunk :: chunk
  seg_by :: int
  worldMatrix :: "real list"
  boundingBox :: "real list"
  boundingSphere :: "real list"
  dirty :: bool
  faceBuffer :: "glbuffer option"
  faceBufferElementCount :: int
  estimatedSize :: int
  sortKey :: int
  lastFrameInViewport :: int
  queuedForBuild :: bool
  queuePriority :: int
  debugVisuals :: bool
  debugLineBuffer :: "nat option"

datatype draw =
    DrawFaces nat "real list" "glbuffer option" int
  | DrawLines nat nat "real list"

record graphics =
  glBuffers :: "nat set"
  lineBuffers :: "nat set"
  nextLineBuffer :: nat
  builderFaces :: "event list"
  drawCalls :: "draw list"

record finishResults =
  buffer :: "glbuffer option"
  elementCount :: int
  bytesUsed :: int

text \<open>
  \<open>blk.graphics.BlockBuilder.finish\<close> is not part of \<open>segmentrenderer.js\<close>; it is a
  parameter: from the faces accumulated by \<open>addFace\<close>, the buffer passed in and the live
  GL buffers it gives its results and the live GL buffers afterwards.
\<close>

type_synonym finishFn = "event list \<Rightarrow> glbuffer option \<Rightarrow> nat set \<Rightarrow> finishResults \<times> nat set"

type_synonym state = "renderer \<times> graphics"

definition deleteBuffer :: "glbuffer option \<Rightarrow> graphics \<Rightarrow> graphics" where
  \<comment> \<open>\<open>gl.deleteBuffer\<close>; deleting \<open>null\<close> does nothing\<close>
  "deleteBuffer b g =
     (case b of None \<Rightarrow> g | Some b' \<Rightarrow> g\<lparr>glBuffers := glBuffers g - {handle b'}\<rparr>)"

definition dispose :: "nat option \<Rightarrow> graphics \<Rightarrow> graphics" where
  \<comment> \<open>\<open>goog.dispose\<close> of a line buffer; disposing \<open>null\<close> does nothing\<close>
  "dispose b g =
     (case b of None \<Rightarrow> g | Some h \<Rightarrow> g\<lparr>lineBuffers := lineBuffers g - {h}\<rparr>)"

definition discard :: "state \<Rightarrow> state" where
  "discard s =
     (case s of (r, g) \<Rightarrow>
        (let g1 = deleteBuffer (faceBuffer r) g;
             r1 = r\<lparr>faceBuffer := None, faceBufferElementCount := 0, estimatedSize := 0\<rparr>
         in if debugLineBuffer r1 \<noteq> None
            then (r1\<lparr>debugLineBuffer := None\<rparr>, dispose (debugLineBuffer r1) g1)
            else (r1, g1)))"

definition invalidate :: "renderer \<Rightarrow> renderer" where
  "invalidate r = r\<lparr>dirty := True\<rparr>"

definition setDebugVisuals :: "bool \<Rightarrow> state \<Rightarrow> state" where
  "setDebugVisuals v s =
     (case s of (r, g) \<Rightarrow>
        if debugVisuals r = v then (r, g)
        else
          (let r1 = r\<lparr>debugVisuals := v\<rparr> in
           if v
           then (r1\<lparr>debugLineBuffer := Some (nextLineBuffer g)\<rparr>,
                 g\<lparr>lineBuffers := insert (nextLineBuffer g) (lineBuffers g),
                   nextLineBuffer := Suc (nextLineBuffer g)\<rparr>)
           else (r1\<lparr>debugLineBuffer := None\<rparr>, dispose (debugLineBuffer r1) g)))"

definition hasData :: "renderer \<Rightarrow> bool" where
  "hasData r = (queuedForBuild r \<or> estimatedSize r > 0)"

definition render :: "nat \<Rightarrow> state \<Rightarrow> state" where
  "render viewport s =
     (case s of (r, g) \<Rightarrow>
        if faceBufferElementCount r \<noteq> 0
        then (r, g\<lparr>drawCalls := drawCalls g @
                [DrawFaces viewport (worldMatrix r) (faceBuffer r) (faceBufferElementCount r)]\<rparr>)
        else (r, g))"

definition renderDebug :: "nat \<Rightarrow> state \<Rightarrow> state" where
  "renderDebug viewport s =
     (case s of (r, g) \<Rightarrow>
        (case debugLineBuffer r of
           None \<Rightarrow> (r, g)
         | Some h \<Rightarrow> (r, g\<lparr>drawCalls := drawCalls g @ [DrawLines h viewport (worldMatrix r)]\<rparr>)))"

definition build :: "env \<Rightarrow> finishFn \<Rightarrow> state \<Rightarrow> (error + int) \<times> state" where
  "build e fin s =
     (case s of (r, g) \<Rightarrow>
        (let r1 = r\<lparr>dirty := False\<rparr> in
         case buildEvents e (chunk r1) (seg_by r1) of
           (es, Some err) \<Rightarrow>
             (Inl err, r1, g\<lparr>builderFaces := builderFaces g @ facesOf es\<rparr>)
         | (es, None) \<Rightarrow>
             (let results = fst (fin (builderFaces g @ facesOf es) (faceBuffer r1) (glBuffers g));
                  g1 = g\<lparr>glBuffers := snd (fin (builderFaces g @ facesOf es) (faceBuffer r1) (glBuffers g)),
                         builderFaces := []\<rparr>;
                  r2 = r1\<lparr>faceBuffer := buffer results,
                         faceBufferElementCount := elementCount results\<rparr>;
                  oldSize = estimatedSize r2;
                  r3 = r2\<lparr>estimatedSize := bytesUsed results\<rparr>
              in (Inr (estimatedSize r3 - oldSize), r3, g1))))"

definition buildFaces :: "env \<Rightarrow> renderer \<Rightarrow> event list" where
  \<comment> \<open>the \<open>addFace\<close> calls one \<open>build()\<close> of this renderer makes, in order\<close>
  "buildFaces e r = facesOf (fst (buildEvents e (chunk r) (seg_by r)))"

text \<open>
  \<open>restore\<close> and \<open>disposeInternal\<close> call the base class \<open>gf.graphics.Resource\<close> and the view
  renderer's \<open>invalidateSegment\<close> with the priority \<open>blk.env.UpdatePriority.LOAD\<close>; none of
  these is part of \<open>segmentrenderer.js\<close>. What each call does to the state is a parameter.
\<close>

record host =
  baseRestore :: "state \<Rightarrow> state"
  baseDisposeInternal :: "state \<Rightarrow> state"
  invalidateSegment :: "int \<Rightarrow> int \<Rightarrow> int \<Rightarrow> int \<Rightarrow> state \<Rightarrow> state"
  LOAD :: int

definition restore :: "host \<Rightarrow> state \<Rightarrow> state" where
  "restore h s =
     (let s1 = baseRestore h s;
          s2 = (if debugVisuals (fst s1)
                then setDebugVisuals True (setDebugVisuals False s1)
                else s1);
          c = chunk (fst s2)
      in invalidateSegment h (chunk_x c) (chunk_y c + seg_by (fst s2)) (chunk_z c) (LOAD h) s2)"

definition disposeInternal :: "host \<Rightarrow> state \<Rightarrow> state" where
  "disposeInternal h s = baseDisposeInternal h (setDebugVisuals False s)"

datatype op =
    Build | Discard | Invalidate | SetDebugVisuals bool | Render nat | RenderDebug nat
  | Restore | DisposeInternal

fun step :: "host \<Rightarrow> env \<Rightarrow> finishFn \<Rightarrow> op \<Rightarrow> state \<Rightarrow> int list \<times> state" where
  \<comment> \<open>one call on the renderer; the list holds the delta a completed \<open>build()\<close> returned\<close>
  "step h e fin Build s =
     (case build e fin s of (Inr d, s') \<Rightarrow> ([d], s') | (Inl err, s') \<Rightarrow> ([], s'))"
| "step h e fin Discard s = ([], discard s)"
| "step h e fin Invalidate s = ([], invalidate (fst s), snd s)"
| "step h e fin (SetDebugVisuals v) s = ([], setDebugVisuals v s)"
| "step h e fin (Render vp) s = ([], render vp s)"
| "step h e fin (RenderDebug vp) s = ([], renderDebug vp s)"
| "step h e fin Restore s = ([], restore h s)"
| "step h e fin DisposeInternal s = ([], disposeInternal h s)"

fun run :: "host \<Rightarrow> env \<Rightarrow> finishFn \<Rightarrow> op list \<Rightarrow> state \<Rightarrow> int list \<times> state" where
  "run h e fin [] s = ([], s)"
| "run h e fin (x # xs) s =
     (case step h e fin x s of
        (ds, s') \<Rightarrow> (case run h e fin xs s' of (ds', s'') \<Rightarrow> (ds @ ds', s'')))"

definition heldBytes :: "renderer \<Rightarrow> int" where
  \<comment> \<open>the byte size of the buffer currently held, 0 when no buffer is held\<close>
  "heldBytes r = (case faceBuffer r of None \<Rightarrow> 0 | Some b \<Rightarrow> byteSize b)"

definition finishReportsSize :: "finishFn \<Rightarrow> bool" where
  \<comment> \<open>the contract of \<open>finish\<close>: \<open>bytesUsed\<close> is the byte size of the buffer it returns\<close>
  "finishReportsSize fin =
     (\<forall>fs old live. bytesUsed (fst (fin fs old live)) =
        (case buffer (fst (fin fs old live)) of None \<Rightarrow> 0 | Some b \<Rightarrow> byteSize b))"

definition leavesBuffer :: "(state \<Rightarrow> state) \<Rightarrow> bool" where
  \<comment> \<open>a call from outside that does not touch the face buffer and its accounting\<close>
  "leavesBuffer f =
     (\<forall>s. faceBuffer (fst (f s)) = faceBuffer (fst s) \<and>
          faceBufferElementCount (fst (f s)) = faceBufferElementCount (fst s) \<and>
          estimatedSize (fst (f s)) = estimatedSize (fst s))"

definition hostLeavesBuffer :: "host \<Rightarrow> bool" where
  "hostLeavesBuffer h =
     (leavesBuffer (baseRestore h) \<and> leavesBuffer (baseDisposeInternal h) \<and>
      (\<forall>x y z p. leavesBuffer (invalidateSegment h x y z p)))"

section \<open>Example data\<close>

definition plainBlock :: block where
  "plainBlock = \<lparr>material_flags = 0, getFaceSlot = (\<lambda>x y z n m v. int n)\<rparr>"

definition mergeBlock :: block where
  "mergeBlock = \<lparr>material_flags = 1, getFaceSlot = (\<lambda>x y z n m v. 6 + int n)\<rparr>"

definition exampleEnv :: env where
  \<comment> \<open>block 2 merges, every other block does not; no neighbour chunk is loaded\<close>
  "exampleEnv = \<lparr>STRIDE_Z = 16, STRIDE_Y = 256, SIZE_Y = 256, SIZE_XZ = 16, MERGE = 1,
     getBlockWithId = (\<lambda>i. Some (if i = 2 then mergeBlock else plainBlock)),
     getSlotCoords = (\<lambda>s. [0, 0, 1, 1]),
     getChunk = (\<lambda>x y z. None)\<rparr>"

definition exampleChunk :: chunk where
  \<comment> \<open>block 1 at \<open>(0, 0, 0)\<close>, \<open>(0, 0, 1)\<close> and \<open>(0, 1, 0)\<close>, block 2 at \<open>(1, 0, 0)\<close>
      (coordinates \<open>(bx, by, bz)\<close>); everything else is air\<close>
  "exampleChunk = \<lparr>chunk_x = 0, chunk_y = 0, chunk_z = 0,
     blockData = [0x100, 0x200] @ replicate 14 0 @ [0x100] @ replicate 239 0 @ [0x100],
     getBlock = (\<lambda>x y z. 0)\<rparr>"

definition isolatedChunk :: chunk where
  \<comment> \<open>a single block 1 at \<open>(5, 5, 5)\<close>, surrounded by air\<close>
  "isolatedChunk = \<lparr>chunk_x = 0, chunk_y = 0, chunk_z = 0,
     blockData = replicate 1365 0 @ [0x100],
     getBlock = (\<lambda>x y z. 0)\<rparr>"

definition edgeChunk :: chunk where
  \<comment> \<open>a single block 1 at \<open>(15, 0, 0)\<close>\<close>
  "edgeChunk = \<lparr>chunk_x = 0, chunk_y = 0, chunk_z = 0,
     blockData = replicate 15 0 @ [0x100],
     getBlock = (\<lambda>x y z. 0)\<rparr>"

definition topChunk :: chunk where
  \<comment> \<open>a single block 1 at \<open>(0, 255, 0)\<close>, the top layer of a chunk 256 high\<close>
  "topChunk = \<lparr>chunk_x = 0, chunk_y = 0, chunk_z = 0,
     blockData = replicate 65280 0 @ [0x100],
     getBlock = (\<lambda>x y z. 0)\<rparr>"

definition solidChunk :: chunk where
  \<comment> \<open>a loaded neighbour chunk that answers block 1 everywhere\<close>
  "solidChunk = \<lparr>chunk_x = 0, chunk_y = 0, chunk_z = 0, blockData = [],
     getBlock = (\<lambda>x y z. 0x100)\<rparr>"

definition loadedEnv :: env where
  \<comment> \<open>as \<open>exampleEnv\<close>, with every neighbour chunk loaded and solid\<close>
  "loadedEnv = exampleEnv\<lparr>getChunk := (\<lambda>x y z. Some solidChunk)\<rparr>"

definition exampleRenderer :: renderer where
  \<comment> \<open>a built renderer of the segment at \<open>by = 0\<close> of \<open>exampleChunk\<close>, debug visuals on\<close>
  "exampleRenderer = \<lparr>chunk = exampleChunk, seg_by = 0,
     worldMatrix = [1, 0, 0, 0, 0, 1, 0, 0, 0, 0, 1, 0, 0, 0, 0, 1],
     boundingBox = [], boundingSphere = [8, 8, 8, 16],
     dirty = False, faceBuffer = Some \<lparr>handle = 7, byteSize = 96\<rparr>,
     faceBufferElementCount = 36, estimatedSize = 96, sortKey = 0, lastFrameInViewport = 0,
     queuedForBuild = False, queuePriority = 0, debugVisuals = True, debugLineBuffer = Some 3\<rparr>"

definition exampleGraphics :: graphics where
  "exampleGraphics = \<lparr>glBuffers = {7}, lineBuffers = {3}, nextLineBuffer = 4,
     builderFaces = [], drawCalls = []\<rparr>"

definition exampleFinish :: finishFn where
  \<comment> \<open>16 bytes and 6 elements a face, always in the buffer with handle 7; no buffer when
      there is no face\<close>
  "exampleFinish fs old live =
     (if fs = []
      then (\<lparr>buffer = None, elementCount = 0, bytesUsed = 0\<rparr>, live - {7})
      else (\<lparr>buffer = Some \<lparr>handle = 7, byteSize = 16 * int (length fs)\<rparr>,
             elementCount = 6 * int (length fs), bytesUsed = 16 * int (length fs)\<rparr>,
            insert 7 live))"

definition exampleHost :: host where
  \<comment> \<open>a base class that does nothing and a view renderer that marks the segment dirty and
      queues it\<close>
  "exampleHost = \<lparr>baseRestore = (\<lambda>s. s), baseDisposeInternal = (\<lambda>s. s),
     invalidateSegment = (\<lambda>x y z p s.
       ((fst s)\<lparr>dirty := True, queuedForBuild := True, queuePriority := p\<rparr>, snd s)),
     LOAD = 0\<rparr>"

definition cornerChunk :: chunk where
  \<comment> \<open>a single block 1 at \<open>(0, 0, 0)\<close>\<close>
  "cornerChunk = \<lparr>chunk_x = 0, chunk_y = 0, chunk_z = 0, blockData = [0x100],
     getBlock = (\<lambda>x y z. 0)\<rparr>"

definition cornerRenderer :: renderer where
  \<comment> \<open>a renderer of the bottom segment of \<open>cornerChunk\<close> as the constructor leaves it\<close>
  "cornerRenderer = \<lparr>chunk = cornerChunk, seg_by = 0,
     worldMatrix = [1, 0, 0, 0, 0, 1, 0, 0, 0, 0, 1, 0, 0, 0, 0, 1],
     boundingBox = [], boundingSphere = [8, 8, 8, 16],
     dirty = True, faceBuffer = None,
     faceBufferElementCount = 0, estimatedSize = 0, sortKey = 0, lastFrameInViewport = 0,
     queuedForBuild = False, queuePriority = 0, debugVisuals = False, debugLineBuffer = None\<rparr>"

definition emptyGraphics :: graphics where
  "emptyGraphics = \<lparr>glBuffers = {}, lineBuffers = {}, nextLineBuffer = 0,
     builderFaces = [], drawCalls = []\<rparr>"

definition mergingEnv :: env where
  \<comment> \<open>as \<open>exampleEnv\<close>, with every block merging\<close>
  "mergingEnv = exampleEnv\<lparr>getBlockWithId := (\<lambda>i. Some mergeBlock)\<rparr>"

definition wideChunk :: chunk where
  \<comment> \<open>block 1 at \<open>(0, 0, 0)\<close>, block 65537 at \<open>(0, 0, 1)\<close> and \<open>(0, 0, 2)\<close>\<close>
  "wideChunk = \<lparr>chunk_x = 0, chunk_y = 0, chunk_z = 0,
     blockData = [0x100] @ replicate 15 0 @ [0x1000100] @ replicate 15 0 @ [0x1000100],
     getBlock = (\<lambda>x y z. 0)\<rparr>"

definition wideFloorChunk :: chunk where
  \<comment> \<open>a single block 65536 at \<open>(0, 0, 0)\<close>\<close>
  "wideFloorChunk = \<lparr>chunk_x = 0, chunk_y = 0, chunk_z = 0, blockData = [0x1000000],
     getBlock = (\<lambda>x y z. 0)\<rparr>"

definition wideEdgeChunk :: chunk where
  \<comment> \<open>a single block 65536 at \<open>(15, 0, 0)\<close>\<close>
  "wideEdgeChunk = \<lparr>chunk_x = 0, chunk_y = 0, chunk_z = 0,
     blockData = replicate 15 0 @ [0x1000000],
     getBlock = (\<lambda>x y z. 0)\<rparr>"

definition wideSolidChunk :: chunk where
  \<comment> \<open>a loaded neighbour chunk that answers block 65536 everywhere\<close>
  "wideSolidChunk = \<lparr>chunk_x = 0, chunk_y = 0, chunk_z = 0, blockData = [],
     getBlock = (\<lambda>x y z. 0x1000000)\<rparr>"

definition wideLoadedEnv :: env where
  \<comment> \<open>as \<open>exampleEnv\<close>, with every neighbour chunk loaded and holding block 65536\<close>
  "wideLoadedEnv = exampleEnv\<lparr>getChunk := (\<lambda>x y z. Some wideSolidChunk)\<rparr>"

section \<open>Sequencing\<close>

lemma forEach_ok_iff: "snd (forEach f xs) = None \<longleftrightarrow> (\<forall>x\<in>set xs. snd (f x) = None)"
  by (induction xs) (auto split: prod.splits option.splits)

lemma forEach_ok_elem:
  "snd (forEach f xs) = None \<Longrightarrow> x \<in> set xs \<Longrightarrow> snd (f x) = None"
  by (simp add: forEach_ok_iff)

lemma forEach_fst_ok:
  "snd (forEach f xs) = None \<Longrightarrow> fst (forEach f xs) = concat (map (\<lambda>x. fst (f x)) xs)"
  by (induction xs) (auto split: prod.splits option.splits)

lemma forEach_mem:
  "ev \<in> set (fst (forEach f xs)) \<Longrightarrow> \<exists>x\<in>set xs. ev \<in> set (fst (f x))"
  by (induction xs) (auto split: prod.splits option.splits)

lemma forEach_mem_ok:
  "snd (forEach f xs) = None \<Longrightarrow> x \<in> set xs \<Longrightarrow> ev \<in> set (fst (f x)) \<Longrightarrow>
   ev \<in> set (fst (forEach f xs))"
  by (auto simp: forEach_fst_ok)

lemma forEach_cong:
  "(\<And>x. x \<in> set xs \<Longrightarrow> f x = g x) \<Longrightarrow> forEach f xs = forEach g xs"
  by (induction xs) (auto split: prod.splits option.splits)

lemma upt_6: "[0..<6] = [0, 1, 2, 3, 4, 5]"
  by (simp add: upt_rec)

lemma emitFace_AddFace:
  "AddFace n' x y z t \<in> set (fst (emitFace e tb blk bx by bz d n)) \<longleftrightarrow>
   (\<exists>b. blk = Some b \<and> n' = n \<and> x = bx \<and> y = by - tb \<and> z = bz \<and>
        t = getSlotCoords e (getFaceSlot b bx by bz n (cellMeta d) (cellVariant d)))"
  by (auto simp: emitFace_def Let_def split: option.splits)

lemma faceStep_AddFace:
  "AddFace n' x y z t \<in> set (fst (faceStep e tb blk bx by bz d nbs n)) \<longleftrightarrow>
   (\<exists>b. blk = Some b \<and> faceVisible e (cellId d) (uint (nbs ! n)) \<and>
        n' = n \<and> x = bx \<and> y = by - tb \<and> z = bz \<and>
        t = getSlotCoords e (getFaceSlot b bx by bz n (cellMeta d) (cellVariant d)))"
  by (auto simp: faceStep_def after_def faceVisible_def hasMerge_def emitFace_AddFace
      split: option.splits)

lemma faceLoop_AddFace:
  assumes "AddFace n x y z t \<in> set (fst (faceLoop e tb bx by bz d nbs))"
  shows "n < 6 \<and> faceVisible e (cellId d) (uint (nbs ! n)) \<and> x = bx \<and> y = by - tb \<and> z = bz \<and>
         (\<exists>b. getBlockWithId e (cellId d) = Some b \<and>
           t = getSlotCoords e (getFaceSlot b bx by bz n (cellMeta d) (cellVariant d)))"
proof -
  from assms have "AddFace n x y z t \<in>
      set (fst (forEach (faceStep e tb (getBlockWithId e (cellId d)) bx by bz d nbs) [0..<6]))"
    by (simp add: faceLoop_def after_def)
  then obtain k where "k \<in> set [0..<6]"
      and "AddFace n x y z t \<in> set (fst (faceStep e tb (getBlockWithId e (cellId d)) bx by bz d nbs k))"
    using forEach_mem by blast
  then show ?thesis by (auto simp: faceStep_AddFace)
qed

lemma faceLoop_AddFace_ok:
  assumes "snd (faceLoop e tb bx by bz d nbs) = None" and "n < 6"
    and "faceVisible e (cellId d) (uint (nbs ! n))"
  shows "\<exists>b. getBlockWithId e (cellId d) = Some b \<and>
           AddFace n bx (by - tb) bz
             (getSlotCoords e (getFaceSlot b bx by bz n (cellMeta d) (cellVariant d)))
           \<in> set (fst (faceLoop e tb bx by bz d nbs))"
proof -
  let ?f = "faceStep e tb (getBlockWithId e (cellId d)) bx by bz d nbs"
  from assms(1) have ok: "snd (forEach ?f [0..<6]) = None"
    by (simp add: faceLoop_def after_def)
  have n: "n \<in> set [0..<6]" using assms(2) by simp
  from ok n have okn: "snd (?f n) = None" by (simp add: forEach_ok_iff)
  with assms(3) obtain b where b: "getBlockWithId e (cellId d) = Some b"
    by (cases "getBlockWithId e (cellId d)")
       (auto simp: faceStep_def after_def emitFace_def faceVisible_def hasMerge_def
          split: option.splits if_splits)
  have "AddFace n bx (by - tb) bz
      (getSlotCoords e (getFaceSlot b bx by bz n (cellMeta d) (cellVariant d))) \<in> set (fst (?f n))"
    using assms(3) b by (simp add: faceStep_AddFace)
  then have "AddFace n bx (by - tb) bz
      (getSlotCoords e (getFaceSlot b bx by bz n (cellMeta d) (cellVariant d)))
      \<in> set (fst (forEach ?f [0..<6]))"
    using forEach_mem_ok [OF ok n] by blast
  then show ?thesis using b by (simp add: faceLoop_def after_def)
qed

lemma addFacesCell_eq:
  "addFacesCell e c tb bx bz (neighborChunksOf e c) by =
     (if cellId (cellAt e c bx by bz) = 0 then ([], None)
      else faceLoop e tb bx by bz (cellAt e c bx by bz)
             (map (\<lambda>n. toUint16 (neighborId e c bx by bz n)) [0..<6]))"
  by (simp add: addFacesCell_def cellAt_def neighborId_def neighborChunksOf_def lateralId_def
      neighborBlockId_def upt_6 Let_def algebra_simps)

lemma interiorCell_eq:
  assumes "bx \<noteq> 0" "bx \<noteq> SIZE - 1" "bz \<noteq> 0" "bz \<noteq> SIZE - 1"
  shows "interiorCell e c tb by bz bx = addFacesCell e c tb bx bz ncs by"
  using assms by (simp add: interiorCell_def addFacesCell_def Let_def)

section \<open>The two passes visit every cell of the segment with the same cell body\<close>

lemma interiorPass_reference: "interiorPass e c tb = referenceInterior e c tb"
  unfolding interiorPass_def referenceInterior_def
  by (intro forEach_cong interiorCell_eq) (auto simp: SIZE_def)

lemma buildEvents_reference: "buildEvents e c tb = referenceEvents e c tb"
  by (simp add: buildEvents_def referenceEvents_def interiorPass_reference)

lemma set_ringCells:
  "set ringCells = {(x, z). 0 \<le> x \<and> x \<le> 15 \<and> 0 \<le> z \<and> z \<le> 15 \<and> (x = 0 \<or> x = 15 \<or> z = 0 \<or> z = 15)}"
  by (auto simp: ringCells_def SIZE_def image_iff)

lemma referenceInterior_mem:
  assumes "ev \<in> set (fst (referenceInterior e c tb))"
  shows "\<exists>bx by bz. 1 \<le> bx \<and> bx \<le> 14 \<and> 1 \<le> bz \<and> bz \<le> 14 \<and> tb \<le> by \<and> by \<le> tb + 15 \<and>
           ev \<in> set (fst (addFacesCell e c tb bx bz (neighborChunksOf e c) by))"
proof -
  from assms obtain "by" where y: "by \<in> set [tb..tb + SIZE - 1]"
    and "ev \<in> set (fst (forEach (\<lambda>bz. forEach (\<lambda>bx.
            addFacesCell e c tb bx bz (neighborChunksOf e c) by) [1..SIZE - 2]) [1..SIZE - 2]))"
    unfolding referenceInterior_def using forEach_mem by fast
  then obtain bz where z: "bz \<in> set [1..SIZE - 2]"
    and "ev \<in> set (fst (forEach (\<lambda>bx.
            addFacesCell e c tb bx bz (neighborChunksOf e c) by) [1..SIZE - 2]))"
    using forEach_mem by fast
  then obtain bx where x: "bx \<in> set [1..SIZE - 2]"
    and "ev \<in> set (fst (addFacesCell e c tb bx bz (neighborChunksOf e c) by))"
    using forEach_mem by fast
  moreover from x y z have "1 \<le> bx \<and> bx \<le> 14 \<and> 1 \<le> bz \<and> bz \<le> 14 \<and> tb \<le> by \<and> by \<le> tb + 15"
    by (simp add: SIZE_def)
  ultimately show ?thesis by blast
qed

lemma boundaryPass_mem:
  assumes "ev \<in> set (fst (boundaryPass e c tb))"
  shows "\<exists>bx by bz. (bx, bz) \<in> set ringCells \<and> tb \<le> by \<and> by \<le> tb + 15 \<and>
           ev \<in> set (fst (addFacesCell e c tb bx bz (neighborChunksOf e c) by))"
proof -
  from assms obtain p where p: "p \<in> set ringCells"
    and ev: "ev \<in> set (fst ((\<lambda>(bx, bz). addFaces e c tb bx tb (tb + SIZE - 1) bz (neighborChunksOf e c)) p))"
    unfolding boundaryPass_def Let_def using forEach_mem by fast
  obtain bx bz where pq: "p = (bx, bz)" by (cases p)
  with ev have "ev \<in> set (fst (addFaces e c tb bx tb (tb + SIZE - 1) bz (neighborChunksOf e c)))"
    by simp
  then obtain "by" where y: "by \<in> set [tb..tb + SIZE - 1]"
    and cell: "ev \<in> set (fst (addFacesCell e c tb bx bz (neighborChunksOf e c) by))"
    unfolding addFaces_def using forEach_mem by fast
  from y have "tb \<le> by \<and> by \<le> tb + 15" by (simp add: SIZE_def)
  with p pq cell show ?thesis by blast
qed

lemma buildEvents_mem:
  assumes "ev \<in> set (fst (buildEvents e c tb))"
  shows "\<exists>bx by bz. 0 \<le> bx \<and> bx \<le> 15 \<and> 0 \<le> bz \<and> bz \<le> 15 \<and> tb \<le> by \<and> by \<le> tb + 15 \<and>
           ev \<in> set (fst (addFacesCell e c tb bx bz (neighborChunksOf e c) by))"
proof -
  from assms obtain pass where "pass \<in> set [referenceInterior, boundaryPass]"
    and "ev \<in> set (fst (pass e c tb))"
    unfolding buildEvents_reference referenceEvents_def using forEach_mem by fast
  then consider "ev \<in> set (fst (referenceInterior e c tb))" | "ev \<in> set (fst (boundaryPass e c tb))"
    by auto
  then show ?thesis
  proof cases
    case 1
    from referenceInterior_mem [OF this] obtain bx "by" bz
      where "1 \<le> bx \<and> bx \<le> 14 \<and> 1 \<le> bz \<and> bz \<le> 14 \<and> tb \<le> by \<and> by \<le> tb + 15"
        and "ev \<in> set (fst (addFacesCell e c tb bx bz (neighborChunksOf e c) by))"
      by blast
    moreover from this have "0 \<le> bx \<and> bx \<le> 15 \<and> 0 \<le> bz \<and> bz \<le> 15" by simp
    ultimately show ?thesis by blast
  next
    case 2
    from boundaryPass_mem [OF this] obtain bx "by" bz
      where "(bx, bz) \<in> set ringCells" and "tb \<le> by \<and> by \<le> tb + 15"
        and "ev \<in> set (fst (addFacesCell e c tb bx bz (neighborChunksOf e c) by))"
      by blast
    moreover from this have "0 \<le> bx \<and> bx \<le> 15 \<and> 0 \<le> bz \<and> bz \<le> 15"
      by (simp add: set_ringCells)
    ultimately show ?thesis by blast
  qed
qed

lemma interior_cell_ok:
  assumes okI: "snd (referenceInterior e c tb) = None"
    and seg: "1 \<le> bx" "bx \<le> 14" "1 \<le> bz" "bz \<le> 14" "tb \<le> by" "by \<le> tb + 15"
  shows "snd (addFacesCell e c tb bx bz (neighborChunksOf e c) by) = None \<and>
         set (fst (addFacesCell e c tb bx bz (neighborChunksOf e c) by))
           \<subseteq> set (fst (referenceInterior e c tb))"
proof -
  let ?cell = "\<lambda>bx bz by. addFacesCell e c tb bx bz (neighborChunksOf e c) by"
  let ?row = "\<lambda>by bz. forEach (\<lambda>bx. ?cell bx bz by) [1..SIZE - 2]"
  let ?layer = "\<lambda>by. forEach (?row by) [1..SIZE - 2]"
  have y: "by \<in> set [tb..tb + SIZE - 1]" using seg by (simp add: SIZE_def)
  have x: "bx \<in> set [1..SIZE - 2]" and z: "bz \<in> set [1..SIZE - 2]"
    using seg by (simp_all add: SIZE_def)
  from okI have okL: "snd (forEach ?layer [tb..tb + SIZE - 1]) = None"
    by (simp add: referenceInterior_def)
  have okl: "snd (?layer by) = None"
    by (rule forEach_ok_elem [OF okL y])
  have okr: "snd (?row by bz) = None"
    by (rule forEach_ok_elem [OF okl z])
  have c1: "snd (?cell bx bz by) = None"
    by (rule forEach_ok_elem [OF okr x])
  have "set (fst (?cell bx bz by)) \<subseteq> set (fst (?row by bz))"
    using forEach_mem_ok [OF okr x] by blast
  also have "\<dots> \<subseteq> set (fst (?layer by))"
    using forEach_mem_ok [OF okl z] by blast
  also have "\<dots> \<subseteq> set (fst (forEach ?layer [tb..tb + SIZE - 1]))"
    using forEach_mem_ok [OF okL y] by blast
  also have "\<dots> = set (fst (referenceInterior e c tb))" by (simp add: referenceInterior_def)
  finally show ?thesis using c1 by blast
qed

lemma boundary_cell_ok:
  assumes okB: "snd (boundaryPass e c tb) = None"
    and ring: "(bx, bz) \<in> set ringCells" and seg: "tb \<le> by" "by \<le> tb + 15"
  shows "snd (addFacesCell e c tb bx bz (neighborChunksOf e c) by) = None \<and>
         set (fst (addFacesCell e c tb bx bz (neighborChunksOf e c) by))
           \<subseteq> set (fst (boundaryPass e c tb))"
proof -
  let ?cell = "\<lambda>bx bz by. addFacesCell e c tb bx bz (neighborChunksOf e c) by"
  let ?col = "\<lambda>(bx, bz). addFaces e c tb bx tb (tb + SIZE - 1) bz (neighborChunksOf e c)"
  have y: "by \<in> set [tb..tb + SIZE - 1]" using seg by (simp add: SIZE_def)
  from okB have okR: "snd (forEach ?col ringCells) = None"
    by (simp add: boundaryPass_def Let_def)
  have okC: "snd (?col (bx, bz)) = None"
    by (rule forEach_ok_elem [OF okR ring])
  from okC have okC': "snd (forEach (?cell bx bz) [tb..tb + SIZE - 1]) = None"
    by (simp add: addFaces_def)
  have c1: "snd (?cell bx bz by) = None"
    by (rule forEach_ok_elem [OF okC' y])
  have "set (fst (?cell bx bz by)) \<subseteq> set (fst (forEach (?cell bx bz) [tb..tb + SIZE - 1]))"
    using forEach_mem_ok [OF okC' y] by blast
  also have "\<dots> = set (fst (?col (bx, bz)))" by (simp add: addFaces_def)
  also have "\<dots> \<subseteq> set (fst (forEach ?col ringCells))"
    using forEach_mem_ok [OF okR ring] by blast
  also have "\<dots> = set (fst (boundaryPass e c tb))" by (simp add: boundaryPass_def Let_def)
  finally show ?thesis using c1 by blast
qed

lemma build_ok_passes:
  assumes ok: "snd (buildEvents e c tb) = None"
  shows "snd (referenceInterior e c tb) = None" and "snd (boundaryPass e c tb) = None"
    and "set (fst (referenceInterior e c tb)) \<subseteq> set (fst (buildEvents e c tb))"
    and "set (fst (boundaryPass e c tb)) \<subseteq> set (fst (buildEvents e c tb))"
proof -
  from ok show "snd (referenceInterior e c tb) = None" and "snd (boundaryPass e c tb) = None"
    unfolding buildEvents_reference referenceEvents_def forEach_ok_iff by simp_all
  from ok have ok': "snd (forEach (\<lambda>pass. pass e c tb) [referenceInterior, boundaryPass]) = None"
    by (simp only: buildEvents_reference referenceEvents_def)
  have inI: "referenceInterior \<in> set [referenceInterior, boundaryPass]"
    and inB: "boundaryPass \<in> set [referenceInterior, boundaryPass]" by simp_all
  show "set (fst (referenceInterior e c tb)) \<subseteq> set (fst (buildEvents e c tb))"
    unfolding buildEvents_reference referenceEvents_def
    using forEach_mem_ok [OF ok' inI] by blast
  show "set (fst (boundaryPass e c tb)) \<subseteq> set (fst (buildEvents e c tb))"
    unfolding buildEvents_reference referenceEvents_def
    using forEach_mem_ok [OF ok' inB] by blast
qed

lemma buildEvents_cell_ok:
  assumes ok: "snd (buildEvents e c tb) = None"
    and seg: "0 \<le> bx" "bx \<le> 15" "0 \<le> bz" "bz \<le> 15" "tb \<le> by" "by \<le> tb + 15"
  shows "snd (addFacesCell e c tb bx bz (neighborChunksOf e c) by) = None \<and>
         set (fst (addFacesCell e c tb bx bz (neighborChunksOf e c) by)) \<subseteq> set (fst (buildEvents e c tb))"
proof (cases "(bx, bz) \<in> set ringCells")
  case True
  from boundary_cell_ok [OF build_ok_passes(2) [OF ok] True seg(5,6)] build_ok_passes(4) [OF ok]
  show ?thesis by blast
next
  case False
  with seg have "1 \<le> bx" "bx \<le> 14" "1 \<le> bz" "bz \<le> 14"
    by (auto simp: set_ringCells)
  from interior_cell_ok [OF build_ok_passes(1) [OF ok] this seg(5,6)] build_ok_passes(3) [OF ok]
  show ?thesis by blast
qed

lemma uint_toUint16: "fitsUint16 k \<Longrightarrow> uint (toUint16 k) = k"
  by (simp add: fitsUint16_def toUint16_def uint_word_of_int_eq take_bit_int_eq_self)

lemma nth_neighbors:
  "n < 6 \<Longrightarrow> map f [0..<6] ! n = f n"
  by simp

lemma cell_AddFace:
  assumes "AddFace n x y z t \<in> set (fst (addFacesCell e c tb bx bz (neighborChunksOf e c) by))"
  shows "x = bx \<and> y = by - tb \<and> z = bz \<and> n < 6 \<and> cellId (cellAt e c bx by bz) \<noteq> 0 \<and>
         faceVisible e (cellId (cellAt e c bx by bz)) (uint (toUint16 (neighborId e c bx by bz n))) \<and>
         (\<exists>b. getBlockWithId e (cellId (cellAt e c bx by bz)) = Some b \<and>
            t = getSlotCoords e (getFaceSlot b bx by bz n
                  (cellMeta (cellAt e c bx by bz)) (cellVariant (cellAt e c bx by bz))))"
proof -
  let ?d = "cellAt e c bx by bz"
  let ?nbs = "map (\<lambda>n. toUint16 (neighborId e c bx by bz n)) [0..<6]"
  from assms have nz: "cellId ?d \<noteq> 0"
    by (auto simp: addFacesCell_eq split: if_splits)
  with assms have "AddFace n x y z t \<in> set (fst (faceLoop e tb bx by bz ?d ?nbs))"
    by (simp add: addFacesCell_eq)
  from faceLoop_AddFace [OF this] nz show ?thesis
    by (auto simp: nth_neighbors)
qed

lemma cell_AddFace_ok:
  assumes "snd (addFacesCell e c tb bx bz (neighborChunksOf e c) by) = None"
    and "cellId (cellAt e c bx by bz) \<noteq> 0" and "n < 6"
    and "faceVisible e (cellId (cellAt e c bx by bz)) (uint (toUint16 (neighborId e c bx by bz n)))"
  shows "\<exists>b. getBlockWithId e (cellId (cellAt e c bx by bz)) = Some b \<and>
           AddFace n bx (by - tb) bz
             (getSlotCoords e (getFaceSlot b bx by bz n
                  (cellMeta (cellAt e c bx by bz)) (cellVariant (cellAt e c bx by bz))))
           \<in> set (fst (addFacesCell e c tb bx bz (neighborChunksOf e c) by))"
proof -
  let ?d = "cellAt e c bx by bz"
  let ?nbs = "map (\<lambda>n. toUint16 (neighborId e c bx by bz n)) [0..<6]"
  from assms(1,2) have ok: "snd (faceLoop e tb bx by bz ?d ?nbs) = None"
    by (simp add: addFacesCell_eq)
  from assms(3,4) have vis: "faceVisible e (cellId ?d) (uint (?nbs ! n))"
    by (simp add: nth_neighbors)
  from faceLoop_AddFace_ok [OF ok assms(3) vis] assms(2) show ?thesis
    by (simp add: addFacesCell_eq)
qed

lemma build_AddFace:
  assumes "AddFace n bx y bz t \<in> set (fst (buildEvents e c tb))"
  shows "0 \<le> bx \<and> bx \<le> 15 \<and> 0 \<le> bz \<and> bz \<le> 15 \<and> 0 \<le> y \<and> y \<le> 15 \<and>
         AddFace n bx y bz t \<in> set (fst (addFacesCell e c tb bx bz (neighborChunksOf e c) (y + tb)))"
proof -
  from buildEvents_mem [OF assms] obtain bx' by' bz'
    where seg: "0 \<le> bx' \<and> bx' \<le> 15 \<and> 0 \<le> bz' \<and> bz' \<le> 15 \<and> tb \<le> by' \<and> by' \<le> tb + 15"
      and cell: "AddFace n bx y bz t \<in> set (fst (addFacesCell e c tb bx' bz' (neighborChunksOf e c) by'))"
    by blast
  from cell_AddFace [OF cell] have "bx = bx'" "bz = bz'" "y = by' - tb" by simp_all
  then have "by' = y + tb" by simp
  with seg cell \<open>bx = bx'\<close> \<open>bz = bz'\<close> show ?thesis by simp
qed

text \<open>A catalog that knows every id never makes the mesher fail.\<close>

lemma emitFace_total: "blk \<noteq> None \<Longrightarrow> snd (emitFace e tb blk bx by bz d n) = None"
  by (auto simp: emitFace_def Let_def)

lemma faceStep_total:
  "\<forall>i. getBlockWithId e i \<noteq> None \<Longrightarrow> blk \<noteq> None \<Longrightarrow>
   snd (faceStep e tb blk bx by bz d nbs n) = None"
proof -
  assume all: "\<forall>i. getBlockWithId e i \<noteq> None" and blk: "blk \<noteq> None"
  from all obtain m where "getBlockWithId e (uint (nbs ! n)) = Some m" by fastforce
  with blk show ?thesis
    by (simp add: faceStep_def after_def emitFace_total)
qed

lemma addFacesCell_total:
  "\<forall>i. getBlockWithId e i \<noteq> None \<Longrightarrow> snd (addFacesCell e c tb bx bz ncs by) = None"
  by (simp add: addFacesCell_def faceLoop_def after_def Let_def forEach_ok_iff faceStep_total)

lemma buildEvents_total:
  assumes "\<forall>i. getBlockWithId e i \<noteq> None"
  shows "snd (buildEvents e c tb) = None"
  unfolding buildEvents_reference referenceEvents_def referenceInterior_def boundaryPass_def
    addFaces_def Let_def forEach_ok_iff
  using addFacesCell_total [OF assms]
  by (auto simp: forEach_ok_iff)

lemma interior_AddFace:
  assumes "AddFace n bx y bz t \<in> set (fst (referenceInterior e c tb))"
  shows "AddFace n bx y bz t \<in> set (fst (addFacesCell e c tb bx bz (neighborChunksOf e c) (y + tb)))"
proof -
  from referenceInterior_mem [OF assms] obtain bx' by' bz'
    where cell: "AddFace n bx y bz t \<in> set (fst (addFacesCell e c tb bx' bz' (neighborChunksOf e c) by'))"
    by blast
  from cell_AddFace [OF cell] have "bx = bx'" "bz = bz'" "y = by' - tb" by simp_all
  then have "by' = y + tb" by simp
  with cell \<open>bx = bx'\<close> \<open>bz = bz'\<close> show ?thesis by simp
qed

lemma boundary_AddFace:
  assumes "AddFace n bx y bz t \<in> set (fst (boundaryPass e c tb))"
  shows "AddFace n bx y bz t \<in> set (fst (addFacesCell e c tb bx bz (neighborChunksOf e c) (y + tb)))"
proof -
  from boundaryPass_mem [OF assms] obtain bx' by' bz'
    where cell: "AddFace n bx y bz t \<in> set (fst (addFacesCell e c tb bx' bz' (neighborChunksOf e c) by'))"
    by blast
  from cell_AddFace [OF cell] have "bx = bx'" "bz = bz'" "y = by' - tb" by simp_all
  then have "by' = y + tb" by simp
  with cell \<open>bx = bx'\<close> \<open>bz = bz'\<close> show ?thesis by simp
qed

section \<open>Face visibility\<close>

lemma keysOf_mem: "(x, y, z, n) \<in> set (keysOf es) \<longleftrightarrow> (\<exists>t. AddFace n x y z t \<in> set es)"
proof (induction es)
  case Nil
  then show ?case by (simp add: keysOf_def facesOf_def)
next
  case (Cons ev es)
  have "keysOf (ev # es) = keysOf [ev] @ keysOf es"
    by (simp add: keysOf_def facesOf_def)
  moreover have "(x, y, z, n) \<in> set (keysOf [ev]) \<longleftrightarrow> (\<exists>t. ev = AddFace n x y z t)"
    by (cases ev) (auto simp: keysOf_def facesOf_def)
  ultimately show ?case using Cons.IH by auto
qed

text \<open>
  Claim C1 states the rule for every solid cell. The code keeps the six neighbour ids in
  \<open>tmpFaces_\<close>, a \<open>Uint16Array\<close>, and tests them from there. In \<open>wideChunk\<close>, with every
  block merging, the cell of id 1 has in direction 0 the neighbour 65537, which the rule
  makes visible; the neighbour is stored as 1, the cell's own id, and no face is added.
  The cell of id 65537 has in direction 0 a neighbour of the same id; it is stored as 1,
  which differs from 65537 and merges, and the face is added.
\<close>

theorem wide_neighbour_counterexample:
  "snd (buildEvents mergingEnv wideChunk 0) = None \<and>
   cellId (cellAt mergingEnv wideChunk 0 0 0) = 1 \<and>
   neighborId mergingEnv wideChunk 0 0 0 0 = 65537 \<and>
   faceVisible mergingEnv 1 65537 \<and>
   (0, 0, 0, 0) \<notin> set (keysOf (fst (buildEvents mergingEnv wideChunk 0))) \<and>
   cellId (cellAt mergingEnv wideChunk 0 0 1) = 65537 \<and>
   neighborId mergingEnv wideChunk 0 0 1 0 = 65537 \<and>
   (0, 0, 1, 0) \<in> set (keysOf (fst (buildEvents mergingEnv wideChunk 0)))"
proof -
  have ok: "snd (buildEvents mergingEnv wideChunk 0) = None"
    by (rule buildEvents_total) (simp add: mergingEnv_def exampleEnv_def)
  have c0: "cellId (cellAt mergingEnv wideChunk 0 0 0) = 1"
    and c1: "cellId (cellAt mergingEnv wideChunk 0 0 1) = 65537"
    by (simp_all add: cellId_def cellAt_def mergingEnv_def exampleEnv_def wideChunk_def
        readData_def nth_append)
  have n0: "neighborId mergingEnv wideChunk 0 0 0 0 = 65537"
    and n1: "neighborId mergingEnv wideChunk 0 0 1 0 = 65537"
    by (simp_all add: neighborId_def cellId_def cellAt_def mergingEnv_def exampleEnv_def
        wideChunk_def readData_def nth_append SIZE_def)
  have wrap: "uint (toUint16 65537) = 1" by (simp add: toUint16_def)
  have merge: "hasMerge mergingEnv i" for i
    by (simp add: hasMerge_def mergingEnv_def mergeBlock_def exampleEnv_def)
  have vis: "faceVisible mergingEnv 1 65537"
    by (simp add: faceVisible_def merge)
  have absent: "(0, 0, 0, 0) \<notin> set (keysOf (fst (buildEvents mergingEnv wideChunk 0)))"
  proof
    assume "(0, 0, 0, 0) \<in> set (keysOf (fst (buildEvents mergingEnv wideChunk 0)))"
    then obtain t where "AddFace 0 0 0 0 t \<in> set (fst (buildEvents mergingEnv wideChunk 0))"
      unfolding keysOf_mem ..
    from build_AddFace [OF this]
    have "AddFace 0 0 0 0 t \<in> set (fst (addFacesCell mergingEnv wideChunk 0 0 0
        (neighborChunksOf mergingEnv wideChunk) 0))" by simp
    from cell_AddFace [OF this]
    have "faceVisible mergingEnv (cellId (cellAt mergingEnv wideChunk 0 0 0))
        (uint (toUint16 (neighborId mergingEnv wideChunk 0 0 0 0)))" by simp
    then show False by (simp add: c0 n0 wrap faceVisible_def)
  qed
  have present: "(0, 0, 1, 0) \<in> set (keysOf (fst (buildEvents mergingEnv wideChunk 0)))"
  proof -
    have "snd (addFacesCell mergingEnv wideChunk 0 0 1 (neighborChunksOf mergingEnv wideChunk) 0) = None \<and>
        set (fst (addFacesCell mergingEnv wideChunk 0 0 1 (neighborChunksOf mergingEnv wideChunk) 0))
        \<subseteq> set (fst (buildEvents mergingEnv wideChunk 0))"
      by (rule buildEvents_cell_ok [OF ok]) simp_all
    then have cok: "snd (addFacesCell mergingEnv wideChunk 0 0 1 (neighborChunksOf mergingEnv wideChunk) 0) = None"
      and sub: "set (fst (addFacesCell mergingEnv wideChunk 0 0 1 (neighborChunksOf mergingEnv wideChunk) 0))
        \<subseteq> set (fst (buildEvents mergingEnv wideChunk 0))" by simp_all
    have solid: "cellId (cellAt mergingEnv wideChunk 0 0 1) \<noteq> 0" by (simp add: c1)
    have "faceVisible mergingEnv (cellId (cellAt mergingEnv wideChunk 0 0 1))
        (uint (toUint16 (neighborId mergingEnv wideChunk 0 0 1 0)))"
      by (simp add: c1 n1 wrap faceVisible_def merge)
    from cell_AddFace_ok [OF cok solid _ this] sub
    obtain t where "AddFace 0 0 0 1 t \<in> set (fst (buildEvents mergingEnv wideChunk 0))"
      by auto
    then show ?thesis unfolding keysOf_mem ..
  qed
  from ok c0 n0 vis absent c1 n1 present show ?thesis by blast
qed

text \<open>
  Claim C1, amended. When \<open>build()\<close> completes, then for every solid cell of the segment and
  every direction \<open>n < 6\<close> whose neighbour id fits 16 bits, the width of the
  \<open>Uint16Array\<close> the ids are stored in, a face is added for that cell and direction if and
  only if the neighbour's block id in that direction is 0, or differs from the cell's id
  and the neighbour's material carries the MERGE flag; such a neighbour of the same id
  never yields a face. The pass that handles the cell (the boundary pass on the outer ring,
  the interior pass elsewhere) decides by the same rule.
\<close>

theorem face_visibility_rule:
  assumes ok: "snd (buildEvents e c this_by) = None"
    and seg: "0 \<le> bx" "bx \<le> 15" "0 \<le> bz" "bz \<le> 15" "this_by \<le> by" "by \<le> this_by + 15"
    and solid: "cellId (cellAt e c bx by bz) \<noteq> 0"
    and n: "n < 6"
    and fits: "fitsUint16 (neighborId e c bx by bz n)"
  shows "((\<exists>t. AddFace n bx (by - this_by) bz t \<in> set (fst (buildEvents e c this_by))) \<longleftrightarrow>
           faceVisible e (cellId (cellAt e c bx by bz)) (neighborId e c bx by bz n)) \<and>
         (neighborId e c bx by bz n = cellId (cellAt e c bx by bz) \<longrightarrow>
           \<not> (\<exists>t. AddFace n bx (by - this_by) bz t \<in> set (fst (buildEvents e c this_by)))) \<and>
         ((\<exists>t. AddFace n bx (by - this_by) bz t \<in>
              set (fst (if (bx, bz) \<in> set ringCells then boundaryPass e c this_by
                        else interiorPass e c this_by))) \<longleftrightarrow>
           faceVisible e (cellId (cellAt e c bx by bz)) (neighborId e c bx by bz n))"
proof -
  let ?d = "cellAt e c bx by bz"
  let ?cell = "addFacesCell e c this_by bx bz (neighborChunksOf e c) by"
  let ?vis = "faceVisible e (cellId ?d) (neighborId e c bx by bz n)"
  let ?pass = "if (bx, bz) \<in> set ringCells then boundaryPass e c this_by
               else referenceInterior e c this_by"
  have u: "uint (toUint16 (neighborId e c bx by bz n)) = neighborId e c bx by bz n"
    by (rule uint_toUint16 [OF fits])
  have sub: "set (fst ?cell) \<subseteq> set (fst ?pass)" and cok: "snd ?cell = None"
  proof -
    show "set (fst ?cell) \<subseteq> set (fst ?pass)"
    proof (cases "(bx, bz) \<in> set ringCells")
      case True
      from boundary_cell_ok [OF build_ok_passes(2) [OF ok] True seg(5,6)] True
      show ?thesis by simp
    next
      case False
      with seg have "1 \<le> bx" "bx \<le> 14" "1 \<le> bz" "bz \<le> 14"
        by (auto simp: set_ringCells)
      from interior_cell_ok [OF build_ok_passes(1) [OF ok] this seg(5,6)] False
      show ?thesis by simp
    qed
    from buildEvents_cell_ok [OF ok seg] show "snd ?cell = None" by simp
  qed
  have psub: "set (fst ?pass) \<subseteq> set (fst (buildEvents e c this_by))"
    using build_ok_passes(3,4) [OF ok] by simp
  have fromCell: "?vis" if "AddFace n bx (by - this_by) bz t \<in> set (fst ?cell)" for t
    using cell_AddFace [OF that] u by simp
  have toCell: "\<exists>t. AddFace n bx (by - this_by) bz t \<in> set (fst ?cell)" if "?vis"
  proof -
    from that u have "faceVisible e (cellId ?d) (uint (toUint16 (neighborId e c bx by bz n)))"
      by simp
    from cell_AddFace_ok [OF cok solid n this] show ?thesis by blast
  qed
  have inBuild: "AddFace n bx (by - this_by) bz t \<in> set (fst ?cell)"
    if "AddFace n bx (by - this_by) bz t \<in> set (fst (buildEvents e c this_by))" for t
    using build_AddFace [OF that] by simp
  have inPass: "AddFace n bx (by - this_by) bz t \<in> set (fst ?cell)"
    if "AddFace n bx (by - this_by) bz t \<in> set (fst ?pass)" for t
    using that psub inBuild by blast
  have iffB: "(\<exists>t. AddFace n bx (by - this_by) bz t \<in> set (fst (buildEvents e c this_by))) \<longleftrightarrow> ?vis"
    using fromCell toCell inBuild sub psub by blast
  have iffP: "(\<exists>t. AddFace n bx (by - this_by) bz t \<in> set (fst ?pass)) \<longleftrightarrow> ?vis"
    using fromCell toCell inPass sub by blast
  have same: "neighborId e c bx by bz n = cellId ?d \<Longrightarrow> \<not> ?vis"
    using solid by (simp add: faceVisible_def)
  show ?thesis
    unfolding interiorPass_reference using iffB iffP same by blast
qed

theorem face_visibility_rule_witness:
  "snd (buildEvents exampleEnv exampleChunk 0) = None \<and>
   cellId (cellAt exampleEnv exampleChunk 0 0 0) \<noteq> 0 \<and>
   fitsUint16 (neighborId exampleEnv exampleChunk 0 0 0 4) \<and>
   faceVisible exampleEnv (cellId (cellAt exampleEnv exampleChunk 0 0 0))
     (neighborId exampleEnv exampleChunk 0 0 0 4) \<and>
   (\<exists>t. AddFace 4 0 0 0 t \<in> set (fst (buildEvents exampleEnv exampleChunk 0)))"
proof -
  have ok: "snd (buildEvents exampleEnv exampleChunk 0) = None"
    by (rule buildEvents_total) (simp add: exampleEnv_def)
  have solid: "cellId (cellAt exampleEnv exampleChunk 0 0 0) \<noteq> 0"
    by (simp add: cellId_def cellAt_def exampleEnv_def exampleChunk_def readData_def)
  have fits: "fitsUint16 (neighborId exampleEnv exampleChunk 0 0 0 4)"
    by (simp add: fitsUint16_def neighborId_def cellId_def cellAt_def exampleEnv_def
        exampleChunk_def readData_def SIZE_def)
  have vis: "faceVisible exampleEnv (cellId (cellAt exampleEnv exampleChunk 0 0 0))
     (neighborId exampleEnv exampleChunk 0 0 0 4)"
    by (simp add: faceVisible_def hasMerge_def neighborId_def cellId_def cellAt_def exampleEnv_def
        exampleChunk_def readData_def SIZE_def mergeBlock_def)
  from face_visibility_rule [of exampleEnv exampleChunk 0 0 0 0 4, OF ok _ _ _ _ _ _ solid _ fits] vis
  have "\<exists>t. AddFace 4 0 0 0 t \<in> set (fst (buildEvents exampleEnv exampleChunk 0))"
    by simp
  with ok solid fits vis show ?thesis by blast
qed

section \<open>Events of a cell, without assuming that the build completes\<close>

lemma forEach_mem_sub:
  "ev \<in> set (fst (forEach f xs)) \<Longrightarrow>
   \<exists>x\<in>set xs. ev \<in> set (fst (f x)) \<and> set (fst (f x)) \<subseteq> set (fst (forEach f xs))"
proof (induction xs)
  case Nil
  then show ?case by simp
next
  case (Cons a xs)
  obtain es r where fa: "f a = (es, r)" by (cases "f a")
  show ?case
  proof (cases r)
    case (Some err)
    with fa Cons.prems show ?thesis by auto
  next
    case None
    obtain es' r' where rest: "forEach f xs = (es', r')" by (cases "forEach f xs")
    with fa None have whole: "fst (forEach f (a # xs)) = es @ es'" by simp
    show ?thesis
    proof (cases "ev \<in> set es")
      case True
      with fa whole show ?thesis by auto
    next
      case False
      with Cons.prems whole rest have "ev \<in> set (fst (forEach f xs))" by simp
      from Cons.IH [OF this] obtain x where "x \<in> set xs" "ev \<in> set (fst (f x))"
        "set (fst (f x)) \<subseteq> set (fst (forEach f xs))" by blast
      with whole rest show ?thesis by auto
    qed
  qed
qed



lemma emitFace_events:
  "set (fst (emitFace e tb blk bx by bz d n)) =
     (case blk of None \<Rightarrow> {}
      | Some b \<Rightarrow> {GetFaceSlot (cellId d) bx by bz n (cellMeta d) (cellVariant d),
                   AddFace n bx (by - tb) bz
                     (getSlotCoords e (getFaceSlot b bx by bz n (cellMeta d) (cellVariant d)))})"
  by (simp add: emitFace_def Let_def split: option.splits)

lemma faceStep_events:
  "set (fst (faceStep e tb blk bx by bz d nbs n)) \<subseteq>
     {GetBlockWithId (uint (nbs ! n)) | i. uint (nbs ! n) \<noteq> 0} \<union>
     (case blk of None \<Rightarrow> {}
      | Some b \<Rightarrow> {GetFaceSlot (cellId d) bx by bz n (cellMeta d) (cellVariant d),
                   AddFace n bx (by - tb) bz
                     (getSlotCoords e (getFaceSlot b bx by bz n (cellMeta d) (cellVariant d)))})"
  by (auto simp: faceStep_def after_def emitFace_events split: option.splits if_splits)



lemma faceStep_lookup:
  assumes "GetBlockWithId i \<in> set (fst (faceStep e tb blk bx by bz d nbs n))"
  shows "i \<noteq> 0"
  using assms
  by (auto simp: faceStep_def after_def emitFace_events split: option.splits if_splits)

lemma faceLoop_mem_sub:
  assumes "ev \<in> set (fst (faceLoop e tb bx by bz d nbs))"
  shows "ev = GetBlockWithId (cellId d) \<or>
         (\<exists>n. let step = faceStep e tb (getBlockWithId e (cellId d)) bx by bz d nbs n in
            ev \<in> set (fst step) \<and> set (fst step) \<subseteq> set (fst (faceLoop e tb bx by bz d nbs)))"
proof (cases "ev = GetBlockWithId (cellId d)")
  case True
  then show ?thesis by simp
next
  case False
  let ?f = "faceStep e tb (getBlockWithId e (cellId d)) bx by bz d nbs"
  from assms False have "ev \<in> set (fst (forEach ?f [0..<6]))"
    by (simp add: faceLoop_def after_def)
  from forEach_mem_sub [OF this] obtain n where
    "ev \<in> set (fst (?f n))" "set (fst (?f n)) \<subseteq> set (fst (forEach ?f [0..<6]))"
    by blast
  moreover have "set (fst (forEach ?f [0..<6])) \<subseteq> set (fst (faceLoop e tb bx by bz d nbs))"
    by (auto simp: faceLoop_def after_def)
  ultimately show ?thesis unfolding Let_def by blast
qed



lemma faceLoop_lookup:
  assumes "GetBlockWithId i \<in> set (fst (faceLoop e tb bx by bz d nbs))" and "cellId d \<noteq> 0"
  shows "i \<noteq> 0"
proof -
  from faceLoop_mem_sub [OF assms(1)]
  consider "i = cellId d"
    | n where "GetBlockWithId i \<in> set (fst (faceStep e tb (getBlockWithId e (cellId d)) bx by bz d nbs n))"
    unfolding Let_def by auto
  then show ?thesis
  proof cases
    case 1
    with assms(2) show ?thesis by simp
  next
    case 2
    then show ?thesis by (rule faceStep_lookup)
  qed
qed



lemma cell_lookup:
  assumes "GetBlockWithId i \<in> set (fst (addFacesCell e c tb bx bz (neighborChunksOf e c) by))"
  shows "i \<noteq> 0"
proof -
  from assms have nz: "cellId (cellAt e c bx by bz) \<noteq> 0"
    by (auto simp: addFacesCell_eq split: if_splits)
  with assms faceLoop_lookup [of i e tb bx "by" bz "cellAt e c bx by bz"]
  show ?thesis by (auto simp: addFacesCell_eq)
qed

lemma air_cell:
  assumes "cellId (readData (blockData c) (bx + bz * STRIDE_Z e + by * STRIDE_Y e)) = 0"
  shows "interiorCell e c tb by bz bx = ([], None)" and "addFacesCell e c tb bx bz ncs by = ([], None)"
  using assms by (simp_all add: interiorCell_def addFacesCell_def Let_def)

section \<open>Catalog access\<close>

text \<open>
  Claim C9. During \<open>build()\<close> the catalog lookup \<open>getBlockWithId\<close> is never called with
  id 0, in neither pass: the lookup of the cell's own block comes after the skip of air
  cells, and the lookup of a neighbour is short-circuited when the neighbour id is 0. A cell
  whose id is 0 is skipped by both cell bodies before any call is made, and no face is
  added for it.
\<close>

theorem air_is_never_looked_up:
  "GetBlockWithId 0 \<notin> set (fst (interiorPass e c this_by)) \<and>
   GetBlockWithId 0 \<notin> set (fst (boundaryPass e c this_by)) \<and>
   GetBlockWithId 0 \<notin> set (fst (buildEvents e c this_by)) \<and>
   (cellId (readData (blockData c) (bx + bz * STRIDE_Z e + by * STRIDE_Y e)) = 0 \<longrightarrow>
      interiorCell e c this_by by bz bx = ([], None) \<and>
      addFacesCell e c this_by bx bz neighborChunks by = ([], None) \<and>
      (\<forall>n t. AddFace n bx (by - this_by) bz t \<notin> set (fst (buildEvents e c this_by))))"
proof -
  have i: "GetBlockWithId 0 \<notin> set (fst (interiorPass e c this_by))"
    unfolding interiorPass_reference using referenceInterior_mem cell_lookup by blast
  have b: "GetBlockWithId 0 \<notin> set (fst (boundaryPass e c this_by))"
    using boundaryPass_mem cell_lookup by blast
  have a: "GetBlockWithId 0 \<notin> set (fst (buildEvents e c this_by))"
    using buildEvents_mem cell_lookup by blast
  have "AddFace n bx (by - this_by) bz t \<notin> set (fst (buildEvents e c this_by))"
    if "cellId (readData (blockData c) (bx + bz * STRIDE_Z e + by * STRIDE_Y e)) = 0" for n t
  proof
    assume "AddFace n bx (by - this_by) bz t \<in> set (fst (buildEvents e c this_by))"
    from build_AddFace [OF this]
    have "AddFace n bx (by - this_by) bz t \<in>
        set (fst (addFacesCell e c this_by bx bz (neighborChunksOf e c) by))" by simp
    from cell_AddFace [OF this] that show False by (simp add: cellAt_def)
  qed
  with i b a air_cell [of c bx bz e "by"] show ?thesis by blast
qed

theorem air_is_never_looked_up_witness:
  "cellId (readData (blockData exampleChunk) (3 + 4 * STRIDE_Z exampleEnv + 2 * STRIDE_Y exampleEnv)) = 0 \<and>
   interiorCell exampleEnv exampleChunk 0 2 4 3 = ([], None) \<and>
   GetBlockWithId 0 \<notin> set (fst (buildEvents exampleEnv exampleChunk 0))"
proof -
  have air: "cellId (readData (blockData exampleChunk)
      (3 + 4 * STRIDE_Z exampleEnv + 2 * STRIDE_Y exampleEnv)) = 0"
    by (simp add: cellId_def exampleEnv_def exampleChunk_def readData_def)
  with air_is_never_looked_up [of exampleEnv exampleChunk 0 3 4 2] show ?thesis by blast
qed

section \<open>The two paths agree\<close>

text \<open>
  Claim C2. Wherever both code paths are applicable, that is at every position that is not
  on the outer ring (whatever the neighbour chunks), the cell body of the interior pass and
  the cell body of \<open>addFaces_\<close> make the same calls with the same arguments and fail alike,
  so do a column of the interior scan and \<open>addFaces_\<close> on that column; the interior pass
  equals the single-path interior scan, and \<open>build()\<close> equals the single-path reference.
\<close>

theorem dual_path_agreement:
  assumes "bx \<noteq> 0" "bx \<noteq> SIZE - 1" "bz \<noteq> 0" "bz \<noteq> SIZE - 1"
  shows "interiorCell e c this_by by bz bx = addFacesCell e c this_by bx bz neighborChunks by \<and>
         forEach (\<lambda>by. interiorCell e c this_by by bz bx) [bymin..bymax] =
           addFaces e c this_by bx bymin bymax bz neighborChunks \<and>
         interiorPass e c this_by = referenceInterior e c this_by \<and>
         buildEvents e c this_by = referenceEvents e c this_by"
proof -
  have cell: "interiorCell e c this_by y bz bx = addFacesCell e c this_by bx bz neighborChunks y" for y
    by (rule interiorCell_eq [OF assms])
  then have "forEach (\<lambda>by. interiorCell e c this_by by bz bx) [bymin..bymax] =
      addFaces e c this_by bx bymin bymax bz neighborChunks"
    unfolding addFaces_def by (intro forEach_cong) simp
  with cell interiorPass_reference buildEvents_reference show ?thesis by blast
qed

theorem dual_path_agreement_witness:
  "(5::int) \<noteq> 0 \<and> 5 \<noteq> SIZE - 1 \<and>
   interiorCell exampleEnv isolatedChunk 0 5 5 5 =
     addFacesCell exampleEnv isolatedChunk 0 5 5 [None, None, None, None] 5 \<and>
   map faceKey (facesOf (fst (interiorCell exampleEnv isolatedChunk 0 5 5 5))) =
     [(5, 5, 5, 0), (5, 5, 5, 1), (5, 5, 5, 2), (5, 5, 5, 3), (5, 5, 5, 4), (5, 5, 5, 5)]"
proof -
  have h: "(5::int) \<noteq> 0" "(5::int) \<noteq> SIZE - 1" by (simp_all add: SIZE_def)
  have "map faceKey (facesOf (fst (addFacesCell exampleEnv isolatedChunk 0 5 5 [None, None, None, None] 5))) =
     [(5, 5, 5, 0), (5, 5, 5, 1), (5, 5, 5, 2), (5, 5, 5, 3), (5, 5, 5, 4), (5, 5, 5, 5)]"
    by code_simp
  with h dual_path_agreement [OF h h, of exampleEnv isolatedChunk 0 5 "[None, None, None, None]"]
  show ?thesis by simp
qed

section \<open>Neighbours across the chunk edge\<close>

lemma neighbor_crossing:
  "crossing bx bz n \<Longrightarrow>
   neighborId e c bx by bz n =
     (case neighborChunk e c n of None \<Rightarrow> 0 | Some c' \<Rightarrow> cellId (neighborCell c c' bx by bz n))"
  unfolding crossing_def
  by (elim disjE conjE;
      simp add: neighborId_def neighborChunk_def neighborCell_def lateralId_def SIZE_def
        split: option.splits)

lemma crossing_ring:
  "crossing bx bz n \<Longrightarrow> 0 \<le> bx \<Longrightarrow> bx \<le> 15 \<Longrightarrow> 0 \<le> bz \<Longrightarrow> bz \<le> 15 \<Longrightarrow>
   (bx, bz) \<in> set ringCells \<and> n < 6"
  unfolding crossing_def set_ringCells
  by (elim disjE conjE; simp add: SIZE_def)

text \<open>
  Claim C4 states that a loaded neighbour chunk holding a non-merging block of the cell's
  own type suppresses the shared face. The cell of id 65536 at the +X edge, next to a
  loaded chunk that holds 65536, has its neighbour stored as 0 in the \<open>Uint16Array\<close>, and
  the boundary pass adds face 4.
\<close>

theorem wide_loaded_neighbour_counterexample:
  "crossing 15 0 4 \<and>
   neighborChunk wideLoadedEnv wideEdgeChunk 4 = Some wideSolidChunk \<and>
   cellId (cellAt wideLoadedEnv wideEdgeChunk 15 0 0) = 65536 \<and>
   cellId (neighborCell wideEdgeChunk wideSolidChunk 15 0 0 4) = 65536 \<and>
   \<not> hasMerge wideLoadedEnv 65536 \<and>
   (15, 0, 0, 4) \<in> set (keysOf (fst (boundaryPass wideLoadedEnv wideEdgeChunk 0)))"
proof -
  have ok: "snd (buildEvents wideLoadedEnv wideEdgeChunk 0) = None"
    by (rule buildEvents_total) (simp add: wideLoadedEnv_def exampleEnv_def)
  have cross: "crossing 15 0 4" by (simp add: crossing_def SIZE_def)
  have some: "neighborChunk wideLoadedEnv wideEdgeChunk 4 = Some wideSolidChunk"
    by (simp add: neighborChunk_def wideLoadedEnv_def exampleEnv_def)
  have own: "cellId (cellAt wideLoadedEnv wideEdgeChunk 15 0 0) = 65536"
    by (simp add: cellId_def cellAt_def wideLoadedEnv_def exampleEnv_def wideEdgeChunk_def
        readData_def nth_append)
  have nb: "cellId (neighborCell wideEdgeChunk wideSolidChunk 15 0 0 4) = 65536"
    by (simp add: neighborCell_def wideSolidChunk_def cellId_def)
  have plain: "\<not> hasMerge wideLoadedEnv 65536"
    by (simp add: hasMerge_def wideLoadedEnv_def exampleEnv_def plainBlock_def)
  have nid: "neighborId wideLoadedEnv wideEdgeChunk 15 0 0 4 = 65536"
    by (simp add: neighbor_crossing [OF cross] some nb)
  have wrap: "uint (toUint16 65536) = 0" by (simp add: toUint16_def)
  have ring: "(15, 0) \<in> set ringCells" by (simp add: set_ringCells)
  have "snd (addFacesCell wideLoadedEnv wideEdgeChunk 0 15 0
        (neighborChunksOf wideLoadedEnv wideEdgeChunk) 0) = None \<and>
      set (fst (addFacesCell wideLoadedEnv wideEdgeChunk 0 15 0
        (neighborChunksOf wideLoadedEnv wideEdgeChunk) 0))
        \<subseteq> set (fst (boundaryPass wideLoadedEnv wideEdgeChunk 0))"
    by (rule boundary_cell_ok [OF build_ok_passes(2) [OF ok] ring]) simp_all
  then have cok: "snd (addFacesCell wideLoadedEnv wideEdgeChunk 0 15 0
        (neighborChunksOf wideLoadedEnv wideEdgeChunk) 0) = None"
    and sub: "set (fst (addFacesCell wideLoadedEnv wideEdgeChunk 0 15 0
        (neighborChunksOf wideLoadedEnv wideEdgeChunk) 0))
        \<subseteq> set (fst (boundaryPass wideLoadedEnv wideEdgeChunk 0))" by simp_all
  have solid: "cellId (cellAt wideLoadedEnv wideEdgeChunk 15 0 0) \<noteq> 0" by (simp add: own)
  have "faceVisible wideLoadedEnv (cellId (cellAt wideLoadedEnv wideEdgeChunk 15 0 0))
      (uint (toUint16 (neighborId wideLoadedEnv wideEdgeChunk 15 0 0 4)))"
    by (simp add: nid wrap faceVisible_def)
  from cell_AddFace_ok [OF cok solid _ this] sub
  obtain t where "AddFace 4 15 0 0 t \<in> set (fst (boundaryPass wideLoadedEnv wideEdgeChunk 0))"
    by auto
  then have "(15, 0, 0, 4) \<in> set (keysOf (fst (boundaryPass wideLoadedEnv wideEdgeChunk 0)))"
    unfolding keysOf_mem ..
  with cross some own nb plain show ?thesis by blast
qed

text \<open>
  Claim C4, amended. For a solid cell on the outer ring whose neighbour in a lateral
  direction lies in a neighbour chunk, when \<open>build()\<close> completes: if that chunk is not
  loaded the neighbour counts as id 0 and the boundary pass adds the face towards it; if
  the chunk is loaded and holds a block of the cell's own type there, with an id that fits
  16 bits, the neighbour id equals the cell's and the shared face is not added.
\<close>

theorem unloaded_neighbour_is_air:
  assumes ok: "snd (buildEvents e c this_by) = None"
    and seg: "0 \<le> bx" "bx \<le> 15" "0 \<le> bz" "bz \<le> 15" "this_by \<le> by" "by \<le> this_by + 15"
    and solid: "cellId (cellAt e c bx by bz) \<noteq> 0"
    and cross: "crossing bx bz n"
  shows "(neighborChunk e c n = None \<longrightarrow>
            neighborId e c bx by bz n = 0 \<and>
            (\<exists>t. AddFace n bx (by - this_by) bz t \<in> set (fst (boundaryPass e c this_by)))) \<and>
         (\<forall>c'. neighborChunk e c n = Some c' \<and>
               cellId (neighborCell c c' bx by bz n) = cellId (cellAt e c bx by bz) \<and>
               fitsUint16 (cellId (cellAt e c bx by bz)) \<longrightarrow>
            neighborId e c bx by bz n = cellId (cellAt e c bx by bz) \<and>
            \<not> (\<exists>t. AddFace n bx (by - this_by) bz t \<in> set (fst (buildEvents e c this_by))))"
proof -
  let ?d = "cellAt e c bx by bz"
  let ?cell = "addFacesCell e c this_by bx bz (neighborChunksOf e c) by"
  from crossing_ring [OF cross seg(1-4)] have ring: "(bx, bz) \<in> set ringCells" and n: "n < 6"
    by simp_all
  from boundary_cell_ok [OF build_ok_passes(2) [OF ok] ring seg(5,6)]
  have cok: "snd ?cell = None" and sub: "set (fst ?cell) \<subseteq> set (fst (boundaryPass e c this_by))"
    by simp_all
  have absent: "neighborId e c bx by bz n = 0 \<and>
      (\<exists>t. AddFace n bx (by - this_by) bz t \<in> set (fst (boundaryPass e c this_by)))"
    if "neighborChunk e c n = None"
  proof -
    from that have z: "neighborId e c bx by bz n = 0"
      by (simp add: neighbor_crossing [OF cross])
    then have "faceVisible e (cellId ?d) (uint (toUint16 (neighborId e c bx by bz n)))"
      by (simp add: faceVisible_def toUint16_def)
    from cell_AddFace_ok [OF cok solid n this] sub z show ?thesis by blast
  qed
  have loaded: "neighborId e c bx by bz n = cellId ?d \<and>
      \<not> (\<exists>t. AddFace n bx (by - this_by) bz t \<in> set (fst (buildEvents e c this_by)))"
    if c': "neighborChunk e c n = Some c'"
      and same: "cellId (neighborCell c c' bx by bz n) = cellId ?d"
      and fits: "fitsUint16 (cellId ?d)" for c'
  proof -
    from c' same have eq: "neighborId e c bx by bz n = cellId ?d"
      by (simp add: neighbor_crossing [OF cross])
    have "\<not> (\<exists>t. AddFace n bx (by - this_by) bz t \<in> set (fst (buildEvents e c this_by)))"
    proof
      assume "\<exists>t. AddFace n bx (by - this_by) bz t \<in> set (fst (buildEvents e c this_by))"
      then obtain t where "AddFace n bx (by - this_by) bz t \<in> set (fst (buildEvents e c this_by))" ..
      from build_AddFace [OF this] have "AddFace n bx (by - this_by) bz t \<in> set (fst ?cell)"
        by simp
      from cell_AddFace [OF this]
      have "faceVisible e (cellId ?d) (uint (toUint16 (neighborId e c bx by bz n)))" by simp
      with eq uint_toUint16 [OF fits] solid show False
        by (simp add: faceVisible_def)
    qed
    with eq show ?thesis by simp
  qed
  from absent loaded show ?thesis by blast
qed

theorem unloaded_neighbour_is_air_witness:
  "snd (buildEvents exampleEnv edgeChunk 0) = None \<and>
   cellId (cellAt exampleEnv edgeChunk 15 0 0) \<noteq> 0 \<and> crossing 15 0 4 \<and>
   neighborChunk exampleEnv edgeChunk 4 = None \<and>
   (\<exists>t. AddFace 4 15 0 0 t \<in> set (fst (boundaryPass exampleEnv edgeChunk 0))) \<and>
   snd (buildEvents loadedEnv edgeChunk 0) = None \<and>
   neighborChunk loadedEnv edgeChunk 4 = Some solidChunk \<and>
   cellId (neighborCell edgeChunk solidChunk 15 0 0 4) = cellId (cellAt loadedEnv edgeChunk 15 0 0) \<and>
   fitsUint16 (cellId (cellAt loadedEnv edgeChunk 15 0 0)) \<and>
   \<not> (\<exists>t. AddFace 4 15 0 0 t \<in> set (fst (buildEvents loadedEnv edgeChunk 0)))"
proof -
  have ok1: "snd (buildEvents exampleEnv edgeChunk 0) = None"
    by (rule buildEvents_total) (simp add: exampleEnv_def)
  have ok2: "snd (buildEvents loadedEnv edgeChunk 0) = None"
    by (rule buildEvents_total) (simp add: loadedEnv_def exampleEnv_def)
  have solid1: "cellId (cellAt exampleEnv edgeChunk 15 0 0) \<noteq> 0"
    by (simp add: cellId_def cellAt_def exampleEnv_def edgeChunk_def readData_def nth_append)
  have solid2: "cellId (cellAt loadedEnv edgeChunk 15 0 0) \<noteq> 0"
    by (simp add: cellId_def cellAt_def loadedEnv_def exampleEnv_def edgeChunk_def readData_def nth_append)
  have cross: "crossing 15 0 4" by (simp add: crossing_def SIZE_def)
  have none: "neighborChunk exampleEnv edgeChunk 4 = None"
    by (simp add: neighborChunk_def exampleEnv_def)
  have some: "neighborChunk loadedEnv edgeChunk 4 = Some solidChunk"
    by (simp add: neighborChunk_def loadedEnv_def exampleEnv_def)
  have same: "cellId (neighborCell edgeChunk solidChunk 15 0 0 4) = cellId (cellAt loadedEnv edgeChunk 15 0 0)"
    by (simp add: neighborCell_def solidChunk_def cellId_def cellAt_def loadedEnv_def exampleEnv_def
        edgeChunk_def readData_def nth_append)
  have fits: "fitsUint16 (cellId (cellAt loadedEnv edgeChunk 15 0 0))"
    by (simp add: fitsUint16_def cellId_def cellAt_def loadedEnv_def exampleEnv_def
        edgeChunk_def readData_def nth_append)
  from unloaded_neighbour_is_air [of exampleEnv edgeChunk 0 15 0 0 4, OF ok1 _ _ _ _ _ _ solid1 cross] none
  have a: "\<exists>t. AddFace 4 15 0 0 t \<in> set (fst (boundaryPass exampleEnv edgeChunk 0))"
    by simp
  from unloaded_neighbour_is_air [of loadedEnv edgeChunk 0 15 0 0 4, OF ok2 _ _ _ _ _ _ solid2 cross]
    some same fits
  have b: "\<not> (\<exists>t. AddFace 4 15 0 0 t \<in> set (fst (buildEvents loadedEnv edgeChunk 0)))"
    by simp
  from ok1 ok2 solid1 cross none some same fits a b show ?thesis by blast
qed

section \<open>The vertical edge policy\<close>

text \<open>
  Claim C5 states that no solid block at \<open>by \<le> 0\<close> gets a face in direction 3. For the
  cell of id 65536 at \<open>by = 0\<close> the neighbour below, the cell itself, is stored as 0 in the
  \<open>Uint16Array\<close>, and the face is added.
\<close>

theorem wide_floor_counterexample:
  "cellId (cellAt exampleEnv wideFloorChunk 0 0 0) = 65536 \<and>
   neighborId exampleEnv wideFloorChunk 0 0 0 3 = 65536 \<and>
   (0, 0, 0, 3) \<in> set (keysOf (fst (buildEvents exampleEnv wideFloorChunk 0)))"
proof -
  have ok: "snd (buildEvents exampleEnv wideFloorChunk 0) = None"
    by (rule buildEvents_total) (simp add: exampleEnv_def)
  have own: "cellId (cellAt exampleEnv wideFloorChunk 0 0 0) = 65536"
    by (simp add: cellId_def cellAt_def exampleEnv_def wideFloorChunk_def readData_def)
  have nid: "neighborId exampleEnv wideFloorChunk 0 0 0 3 = 65536"
    by (simp add: neighborId_def own)
  have wrap: "uint (toUint16 65536) = 0" by (simp add: toUint16_def)
  have "snd (addFacesCell exampleEnv wideFloorChunk 0 0 0
        (neighborChunksOf exampleEnv wideFloorChunk) 0) = None \<and>
      set (fst (addFacesCell exampleEnv wideFloorChunk 0 0 0
        (neighborChunksOf exampleEnv wideFloorChunk) 0))
        \<subseteq> set (fst (buildEvents exampleEnv wideFloorChunk 0))"
    by (rule buildEvents_cell_ok [OF ok]) simp_all
  then have cok: "snd (addFacesCell exampleEnv wideFloorChunk 0 0 0
        (neighborChunksOf exampleEnv wideFloorChunk) 0) = None"
    and sub: "set (fst (addFacesCell exampleEnv wideFloorChunk 0 0 0
        (neighborChunksOf exampleEnv wideFloorChunk) 0))
        \<subseteq> set (fst (buildEvents exampleEnv wideFloorChunk 0))" by simp_all
  have solid: "cellId (cellAt exampleEnv wideFloorChunk 0 0 0) \<noteq> 0" by (simp add: own)
  have "faceVisible exampleEnv (cellId (cellAt exampleEnv wideFloorChunk 0 0 0))
      (uint (toUint16 (neighborId exampleEnv wideFloorChunk 0 0 0 3)))"
    by (simp add: nid wrap faceVisible_def)
  from cell_AddFace_ok [OF cok solid _ this] sub
  obtain t where "AddFace 3 0 0 0 t \<in> set (fst (buildEvents exampleEnv wideFloorChunk 0))"
    by auto
  then have "(0, 0, 0, 3) \<in> set (keysOf (fst (buildEvents exampleEnv wideFloorChunk 0)))"
    unfolding keysOf_mem ..
  with own nid show ?thesis by blast
qed

text \<open>
  Claim C5, amended. For a cell of the segment with \<open>by \<le> 0\<close> whose id fits 16 bits the
  neighbour below is the cell itself, and \<open>build()\<close> adds no face in direction 3 for it,
  whatever the material flags; for a cell with \<open>by \<ge> SIZE_Y - 1\<close> the neighbour above has
  id 0, so a solid cell there gets its face in direction 2 when the build completes.
\<close>

theorem floor_and_top_policy:
  assumes seg: "0 \<le> bx" "bx \<le> 15" "0 \<le> bz" "bz \<le> 15" "this_by \<le> by" "by \<le> this_by + 15"
  shows "(by \<le> 0 \<and> fitsUint16 (cellId (cellAt e c bx by bz)) \<longrightarrow>
            neighborId e c bx by bz 3 = cellId (cellAt e c bx by bz) \<and>
            (\<forall>t. AddFace 3 bx (by - this_by) bz t \<notin> set (fst (buildEvents e c this_by)))) \<and>
         (SIZE_Y e - 1 \<le> by \<longrightarrow>
            neighborId e c bx by bz 2 = 0 \<and>
            (snd (buildEvents e c this_by) = None \<and> cellId (cellAt e c bx by bz) \<noteq> 0 \<longrightarrow>
               (\<exists>t. AddFace 2 bx (by - this_by) bz t \<in> set (fst (buildEvents e c this_by)))))"
proof -
  let ?d = "cellAt e c bx by bz"
  let ?cell = "addFacesCell e c this_by bx bz (neighborChunksOf e c) by"
  have floor: "neighborId e c bx by bz 3 = cellId ?d \<and>
      (\<forall>t. AddFace 3 bx (by - this_by) bz t \<notin> set (fst (buildEvents e c this_by)))"
    if low: "by \<le> 0" and fits: "fitsUint16 (cellId ?d)"
  proof -
    from low have eq: "neighborId e c bx by bz 3 = cellId ?d"
      by (simp add: neighborId_def)
    have "AddFace 3 bx (by - this_by) bz t \<notin> set (fst (buildEvents e c this_by))" for t
    proof
      assume "AddFace 3 bx (by - this_by) bz t \<in> set (fst (buildEvents e c this_by))"
      from build_AddFace [OF this] have "AddFace 3 bx (by - this_by) bz t \<in> set (fst ?cell)"
        by simp
      from cell_AddFace [OF this]
      have "cellId ?d \<noteq> 0"
        and "faceVisible e (cellId ?d) (uint (toUint16 (neighborId e c bx by bz 3)))" by simp_all
      with eq uint_toUint16 [OF fits] show False
        by (simp add: faceVisible_def)
    qed
    with eq show ?thesis by simp
  qed
  have top: "neighborId e c bx by bz 2 = 0" if "SIZE_Y e - 1 \<le> by"
    using that by (simp add: neighborId_def)
  have topFace: "\<exists>t. AddFace 2 bx (by - this_by) bz t \<in> set (fst (buildEvents e c this_by))"
    if hi: "SIZE_Y e - 1 \<le> by" and ok: "snd (buildEvents e c this_by) = None"
      and solid: "cellId ?d \<noteq> 0"
  proof -
    from buildEvents_cell_ok [OF ok seg]
    have cok: "snd ?cell = None" and sub: "set (fst ?cell) \<subseteq> set (fst (buildEvents e c this_by))"
      by simp_all
    from top [OF hi] have "faceVisible e (cellId ?d) (uint (toUint16 (neighborId e c bx by bz 2)))"
      by (simp add: faceVisible_def toUint16_def)
    from cell_AddFace_ok [OF cok solid _ this] sub show ?thesis by fastforce
  qed
  from floor top topFace show ?thesis by blast
qed

theorem floor_and_top_policy_witness:
  "(0::int) \<le> 0 \<and> fitsUint16 (cellId (cellAt exampleEnv exampleChunk 0 0 0)) \<and>
   cellId (cellAt exampleEnv exampleChunk 0 0 0) \<noteq> 0 \<and>
   (\<forall>t. AddFace 3 0 0 0 t \<notin> set (fst (buildEvents exampleEnv exampleChunk 0))) \<and>
   SIZE_Y exampleEnv - 1 \<le> 255 \<and> snd (buildEvents exampleEnv topChunk 240) = None \<and>
   cellId (cellAt exampleEnv topChunk 0 255 0) \<noteq> 0 \<and>
   (\<exists>t. AddFace 2 0 15 0 t \<in> set (fst (buildEvents exampleEnv topChunk 240)))"
proof -
  have fits: "fitsUint16 (cellId (cellAt exampleEnv exampleChunk 0 0 0))"
    and solid: "cellId (cellAt exampleEnv exampleChunk 0 0 0) \<noteq> 0"
    by (simp_all add: fitsUint16_def cellId_def cellAt_def exampleEnv_def exampleChunk_def readData_def)
  have hi: "SIZE_Y exampleEnv - 1 \<le> 255" by (simp add: exampleEnv_def)
  have ok: "snd (buildEvents exampleEnv topChunk 240) = None"
    by (rule buildEvents_total) (simp add: exampleEnv_def)
  have solidT: "cellId (cellAt exampleEnv topChunk 0 255 0) \<noteq> 0"
    by (simp add: cellId_def cellAt_def exampleEnv_def topChunk_def readData_def nth_append)
  from floor_and_top_policy [of 0 0 0 0 exampleEnv exampleChunk] fits
  have a: "\<forall>t. AddFace 3 0 0 0 t \<notin> set (fst (buildEvents exampleEnv exampleChunk 0))"
    by simp
  from floor_and_top_policy [of 0 0 240 255 exampleEnv topChunk] hi ok solidT
  have b: "\<exists>t. AddFace 2 0 15 0 t \<in> set (fst (buildEvents exampleEnv topChunk 240))"
    by simp
  from fits solid hi ok solidT a b show ?thesis by simp
qed

section \<open>Decoding a packed cell\<close>

lemma cellId_div: "cellId data = sint data div 256"
  by (simp add: cellId_def sint_signed_drop_bit_eq drop_bit_eq_div)



text \<open>
  A cell below \<open>2 ^ 24\<close>, that is a 16-bit id above the low byte, has an id that the
  \<open>Uint16Array\<close> of neighbour ids holds unchanged; a wider id is stored modulo \<open>2 ^ 16\<close>.
\<close>

lemma fits_of_cell:
  assumes "uint data < 2 ^ 24"
  shows "fitsUint16 (cellId data)"
proof -
  from assms have "uint data < 2 ^ 31" by simp
  moreover have "- (2 ^ 31) \<le> uint data"
  proof -
    have "(- (2 ^ 31) :: int) \<le> 0" by simp
    also have "0 \<le> uint data" by simp
    finally show ?thesis .
  qed
  ultimately have "signed_take_bit 31 (uint data) = uint data"
    by (simp only: signed_take_bit_int_eq_self_iff)
  then have "sint data = uint data"
    by (simp add: sint_uint)
  with assms have "cellId data = uint data div 256" and "0 \<le> uint data" and "uint data < 16777216"
    by (simp_all add: cellId_div)
  then show ?thesis
    unfolding fitsUint16_def by (simp only:) linarith
qed

lemma wide_id_wraps: "uint (toUint16 65537) = 1"
  by (simp add: toUint16_def)







section \<open>The renderer's state\<close>

text \<open>
  Claim C10. \<open>invalidate()\<close> sets the dirty flag and changes no other field of the renderer
  (buffer handle, element count, estimated size, queue state, debug buffer, transform,
  bounding volumes) and nothing of the graphics context; calling it twice, or any number of
  times, is the same as calling it once.
\<close>

theorem invalidate_only_sets_dirty:
  "dirty (invalidate r) = True \<and>
   invalidate r = r\<lparr>dirty := True\<rparr> \<and>
   faceBuffer (invalidate r) = faceBuffer r \<and>
   faceBufferElementCount (invalidate r) = faceBufferElementCount r \<and>
   estimatedSize (invalidate r) = estimatedSize r \<and>
   queuedForBuild (invalidate r) = queuedForBuild r \<and>
   queuePriority (invalidate r) = queuePriority r \<and>
   sortKey (invalidate r) = sortKey r \<and>
   lastFrameInViewport (invalidate r) = lastFrameInViewport r \<and>
   debugVisuals (invalidate r) = debugVisuals r \<and>
   debugLineBuffer (invalidate r) = debugLineBuffer r \<and>
   worldMatrix (invalidate r) = worldMatrix r \<and>
   boundingBox (invalidate r) = boundingBox r \<and>
   boundingSphere (invalidate r) = boundingSphere r \<and>
   chunk (invalidate r) = chunk r \<and> seg_by (invalidate r) = seg_by r \<and>
   invalidate (invalidate r) = invalidate r \<and>
   (invalidate ^^ Suc k) r = invalidate r \<and>
   snd (step h e fin Invalidate (r, g)) = (invalidate r, g)"
proof -
  have idem: "invalidate (invalidate r') = invalidate r'" for r'
    by (simp add: invalidate_def)
  have "(invalidate ^^ Suc k) r = invalidate r"
    by (induction k) (simp_all add: idem)
  then show ?thesis by (simp add: invalidate_def)
qed

lemma discard_fields:
  "faceBuffer (fst (discard s)) = None"
  "faceBufferElementCount (fst (discard s)) = 0"
  "estimatedSize (fst (discard s)) = 0"
  "debugLineBuffer (fst (discard s)) = None"
  by (simp_all add: discard_def Let_def split: prod.splits)

lemma discard_releases:
  "glBuffers (snd (discard (r, g))) =
     (case faceBuffer r of None \<Rightarrow> glBuffers g | Some b \<Rightarrow> glBuffers g - {handle b})"
  "lineBuffers (snd (discard (r, g))) =
     (case debugLineBuffer r of None \<Rightarrow> lineBuffers g | Some h \<Rightarrow> lineBuffers g - {h})"
  "drawCalls (snd (discard (r, g))) = drawCalls g"
  by (auto simp: discard_def Let_def deleteBuffer_def dispose_def split: option.splits)

lemma discard_idem: "discard (discard s) = discard s"
  by (cases s) (auto simp: discard_def Let_def deleteBuffer_def dispose_def split: option.splits)

lemma render_after_discard: "render vp (discard s) = discard s"
  by (cases s) (auto simp: render_def discard_def Let_def split: option.splits)

text \<open>
  Claim C8. From any state \<open>discard()\<close> leaves no face buffer, element count 0, estimated
  size 0 and no debug buffer; the face buffer and the debug buffer it held are no longer
  live. A second \<open>discard()\<close> changes nothing, and \<open>render()\<close> after \<open>discard()\<close> changes
  nothing and issues no draw call.
\<close>

theorem discard_resets_and_is_safe:
  "faceBuffer (fst (discard (r, g))) = None \<and>
   faceBufferElementCount (fst (discard (r, g))) = 0 \<and>
   estimatedSize (fst (discard (r, g))) = 0 \<and>
   debugLineBuffer (fst (discard (r, g))) = None \<and>
   (\<forall>b. faceBuffer r = Some b \<longrightarrow> handle b \<notin> glBuffers (snd (discard (r, g)))) \<and>
   (\<forall>h. debugLineBuffer r = Some h \<longrightarrow> h \<notin> lineBuffers (snd (discard (r, g)))) \<and>
   discard (discard (r, g)) = discard (r, g) \<and>
   render viewport (discard (r, g)) = discard (r, g) \<and>
   drawCalls (snd (render viewport (discard (r, g)))) = drawCalls g"
  using discard_fields [of "(r, g)"] discard_releases [of r g] discard_idem [of "(r, g)"]
    render_after_discard [of viewport "(r, g)"]
  by (auto split: option.splits)

theorem discard_resets_and_is_safe_witness:
  "faceBuffer exampleRenderer = Some \<lparr>handle = 7, byteSize = 96\<rparr> \<and>
   debugLineBuffer exampleRenderer = Some 3 \<and>
   7 \<in> glBuffers exampleGraphics \<and> 3 \<in> lineBuffers exampleGraphics \<and>
   7 \<notin> glBuffers (snd (discard (exampleRenderer, exampleGraphics))) \<and>
   3 \<notin> lineBuffers (snd (discard (exampleRenderer, exampleGraphics))) \<and>
   render 0 (discard (exampleRenderer, exampleGraphics)) = discard (exampleRenderer, exampleGraphics)"
  using discard_resets_and_is_safe [of exampleRenderer exampleGraphics 0]
  by (simp add: exampleRenderer_def exampleGraphics_def)

lemma build_cases:
  obtains (failed) err where "snd (buildEvents e (chunk r) (seg_by r)) = Some err"
      "build e fin (r, g) =
      (Inl err, r\<lparr>dirty := False\<rparr>,
       g\<lparr>builderFaces := builderFaces g @ buildFaces e r\<rparr>)"
  | (completed) "snd (buildEvents e (chunk r) (seg_by r)) = None"
      "build e fin (r, g) =
        (Inr (bytesUsed (fst (fin (builderFaces g @ buildFaces e r) (faceBuffer r) (glBuffers g)))
                - estimatedSize r),
         r\<lparr>dirty := False,
           faceBuffer := buffer (fst (fin (builderFaces g @ buildFaces e r) (faceBuffer r) (glBuffers g))),
           faceBufferElementCount :=
             elementCount (fst (fin (builderFaces g @ buildFaces e r) (faceBuffer r) (glBuffers g))),
           estimatedSize :=
             bytesUsed (fst (fin (builderFaces g @ buildFaces e r) (faceBuffer r) (glBuffers g)))\<rparr>,
         g\<lparr>glBuffers := snd (fin (builderFaces g @ buildFaces e r) (faceBuffer r) (glBuffers g)),
           builderFaces := []\<rparr>)"
proof (cases "buildEvents e (chunk r) (seg_by r)")
  case (Pair es x)
  show ?thesis
  proof (cases x)
    case None
    with Pair show ?thesis
      by (intro completed) (simp_all add: build_def Let_def buildFaces_def)
  next
    case (Some err)
    with Pair show ?thesis
      by (intro failed [of err]) (simp_all add: build_def Let_def buildFaces_def)
  qed
qed

lemma build_size:
  assumes "finishReportsSize fin" and "build e fin s = (Inr d, s')"
  shows "estimatedSize (fst s') = heldBytes (fst s') \<and> d = estimatedSize (fst s') - estimatedSize (fst s)"
proof -
  obtain r g where s: "s = (r, g)" by (cases s)
  show ?thesis
  proof (cases rule: build_cases [of e r fin g])
    case (failed err)
    with assms(2) s show ?thesis by simp
  next
    case completed
    let ?res = "fst (fin (builderFaces g @ buildFaces e r) (faceBuffer r) (glBuffers g))"
    from assms(1) have "bytesUsed ?res = (case buffer ?res of None \<Rightarrow> 0 | Some b \<Rightarrow> byteSize b)"
      unfolding finishReportsSize_def by blast
    with completed(2) assms(2) s show ?thesis by (auto simp: heldBytes_def)
  qed
qed

lemma build_fail_size:
  assumes "build e fin s = (Inl err, s')"
  shows "estimatedSize (fst s') = estimatedSize (fst s) \<and> faceBuffer (fst s') = faceBuffer (fst s)"
proof -
  obtain r g where s: "s = (r, g)" by (cases s)
  show ?thesis
  proof (cases rule: build_cases [of e r fin g])
    case (failed err')
    with assms s show ?thesis by auto
  next
    case completed
    with assms s show ?thesis by simp
  qed
qed

lemma leavesBufferD:
  assumes "leavesBuffer f"
  shows "faceBuffer (fst (f s)) = faceBuffer (fst s)"
    and "faceBufferElementCount (fst (f s)) = faceBufferElementCount (fst s)"
    and "estimatedSize (fst (f s)) = estimatedSize (fst s)"
  using assms unfolding leavesBuffer_def by blast+

lemma leavesBufferI:
  assumes "\<And>s. faceBuffer (fst (f s)) = faceBuffer (fst s)"
    and "\<And>s. faceBufferElementCount (fst (f s)) = faceBufferElementCount (fst s)"
    and "\<And>s. estimatedSize (fst (f s)) = estimatedSize (fst s)"
  shows "leavesBuffer f"
  unfolding leavesBuffer_def using assms by blast

lemma setDebugVisuals_leaves: "leavesBuffer (setDebugVisuals v)"
proof (rule leavesBufferI)
  fix s :: state
  obtain r g where s: "s = (r, g)" by (cases s)
  show "faceBuffer (fst (setDebugVisuals v s)) = faceBuffer (fst s)"
    and "faceBufferElementCount (fst (setDebugVisuals v s)) = faceBufferElementCount (fst s)"
    and "estimatedSize (fst (setDebugVisuals v s)) = estimatedSize (fst s)"
    unfolding s by (simp_all add: setDebugVisuals_def Let_def)
qed

lemma restore_leaves:
  assumes "hostLeavesBuffer h"
  shows "leavesBuffer (restore h)"
proof (rule leavesBufferI)
  fix s :: state
  from assms have b: "leavesBuffer (baseRestore h)"
    and i: "\<And>x y z p. leavesBuffer (invalidateSegment h x y z p)"
    unfolding hostLeavesBuffer_def by blast+
  let ?s1 = "baseRestore h s"
  let ?s2 = "if debugVisuals (fst ?s1) then setDebugVisuals True (setDebugVisuals False ?s1) else ?s1"
  have r: "restore h s = invalidateSegment h (chunk_x (chunk (fst ?s2)))
      (chunk_y (chunk (fst ?s2)) + seg_by (fst ?s2)) (chunk_z (chunk (fst ?s2))) (LOAD h) ?s2"
    by (simp only: restore_def Let_def)
  have s2: "faceBuffer (fst ?s2) = faceBuffer (fst s)"
    "faceBufferElementCount (fst ?s2) = faceBufferElementCount (fst s)"
    "estimatedSize (fst ?s2) = estimatedSize (fst s)"
    by (simp_all only: leavesBufferD [OF setDebugVisuals_leaves] leavesBufferD [OF b] if_distrib
        if_cancel cong: if_cong)
  show "faceBuffer (fst (restore h s)) = faceBuffer (fst s)"
    and "faceBufferElementCount (fst (restore h s)) = faceBufferElementCount (fst s)"
    and "estimatedSize (fst (restore h s)) = estimatedSize (fst s)"
    unfolding r by (simp_all only: leavesBufferD [OF i] s2)
qed

lemma disposeInternal_leaves:
  assumes "hostLeavesBuffer h"
  shows "leavesBuffer (disposeInternal h)"
proof (rule leavesBufferI)
  fix s :: state
  from assms have b: "leavesBuffer (baseDisposeInternal h)"
    unfolding hostLeavesBuffer_def by blast
  show "faceBuffer (fst (disposeInternal h s)) = faceBuffer (fst s)"
    and "faceBufferElementCount (fst (disposeInternal h s)) = faceBufferElementCount (fst s)"
    and "estimatedSize (fst (disposeInternal h s)) = estimatedSize (fst s)"
    unfolding disposeInternal_def
    by (simp_all only: leavesBufferD [OF b] leavesBufferD [OF setDebugVisuals_leaves])
qed

lemma step_frame:
  assumes "hostLeavesBuffer h" and "x \<noteq> Build" and "x \<noteq> Discard"
  shows "fst (step h e fin x s) = [] \<and>
         faceBuffer (fst (snd (step h e fin x s))) = faceBuffer (fst s) \<and>
         faceBufferElementCount (fst (snd (step h e fin x s))) = faceBufferElementCount (fst s) \<and>
         estimatedSize (fst (snd (step h e fin x s))) = estimatedSize (fst s)"
proof (cases x)
  case Build
  with assms show ?thesis by simp
next
  case Discard
  with assms show ?thesis by simp
next
  case Invalidate
  then show ?thesis by (simp add: invalidate_def)
next
  case (SetDebugVisuals v)
  with leavesBufferD [OF setDebugVisuals_leaves, of v s] show ?thesis by simp
next
  case (Render vp)
  then show ?thesis by (cases s) (auto simp: render_def)
next
  case (RenderDebug vp)
  then show ?thesis by (cases s) (auto simp: renderDebug_def split: option.splits)
next
  case Restore
  with leavesBufferD [OF restore_leaves [OF assms(1)], of s] show ?thesis by simp
next
  case DisposeInternal
  with leavesBufferD [OF disposeInternal_leaves [OF assms(1)], of s] show ?thesis by simp
qed

lemma step_inv:
  assumes "finishReportsSize fin" and "hostLeavesBuffer h"
    and "estimatedSize (fst s) = heldBytes (fst s)"
  shows "estimatedSize (fst (snd (step h e fin x s))) = heldBytes (fst (snd (step h e fin x s)))"
proof (cases "x = Build \<or> x = Discard")
  case False
  with step_frame [OF assms(2), of x e fin s] assms(3) show ?thesis
    by (simp add: heldBytes_def)
next
  case True
  then show ?thesis
  proof
    assume x: "x = Build"
    obtain res s' where b: "build e fin s = (res, s')" by (cases "build e fin s")
    show ?thesis
    proof (cases res)
      case (Inl err)
      with b build_fail_size [of e fin s err s'] assms(3) x show ?thesis
        by (simp add: heldBytes_def)
    next
      case (Inr d)
      with b build_size [OF assms(1), of e s d s'] x show ?thesis by simp
    qed
  next
    assume "x = Discard"
    then show ?thesis by (simp add: discard_fields heldBytes_def)
  qed
qed

lemma step_delta:
  assumes "hostLeavesBuffer h" and "x \<noteq> Discard"
  shows "sum_list (fst (step h e fin x s)) =
           estimatedSize (fst (snd (step h e fin x s))) - estimatedSize (fst s)"
proof (cases "x = Build")
  case False
  with step_frame [OF assms(1) False assms(2), of e fin s] show ?thesis by simp
next
  case True
  obtain r g where s: "s = (r, g)" by (cases s)
  show ?thesis
  proof (cases rule: build_cases [of e r fin g])
    case (failed err)
    with True s show ?thesis by simp
  next
    case completed
    with True s show ?thesis by simp
  qed
qed

lemma run_Cons:
  "fst (run h e fin (x # xs) s) =
     fst (step h e fin x s) @ fst (run h e fin xs (snd (step h e fin x s)))"
  "snd (run h e fin (x # xs) s) = snd (run h e fin xs (snd (step h e fin x s)))"
  by (simp_all split: prod.splits)

lemma run_inv:
  assumes "finishReportsSize fin" and "hostLeavesBuffer h"
  shows "estimatedSize (fst s) = heldBytes (fst s) \<Longrightarrow>
         estimatedSize (fst (snd (run h e fin xs s))) = heldBytes (fst (snd (run h e fin xs s)))"
proof (induction xs arbitrary: s)
  case Nil
  then show ?case by simp
next
  case (Cons x xs)
  from step_inv [OF assms Cons.prems, of e x]
  have "estimatedSize (fst (snd (run h e fin xs (snd (step h e fin x s))))) =
        heldBytes (fst (snd (run h e fin xs (snd (step h e fin x s)))))"
    by (rule Cons.IH)
  then show ?case by (simp only: run_Cons)
qed

lemma run_delta:
  assumes "hostLeavesBuffer h"
  shows "Discard \<notin> set xs \<Longrightarrow>
   sum_list (fst (run h e fin xs s)) =
     estimatedSize (fst (snd (run h e fin xs s))) - estimatedSize (fst s)"
proof (induction xs arbitrary: s)
  case Nil
  then show ?case by simp
next
  case (Cons x xs)
  then have x: "x \<noteq> Discard" and xs: "Discard \<notin> set xs" by auto
  from Cons.IH [OF xs, of "snd (step h e fin x s)"] step_delta [OF assms x, of e fin s]
  show ?case by (simp only: run_Cons sum_list_append)
qed

lemma forEach_air:
  "(\<And>x. x \<in> set xs \<Longrightarrow> f x = ([], None)) \<Longrightarrow> forEach f xs = ([], None)"
  by (induction xs) simp_all

lemma corner_air:
  assumes "0 \<le> bx" "0 \<le> bz" "0 \<le> by" "bx \<noteq> 0 \<or> bz \<noteq> 0 \<or> by \<noteq> 0"
  shows "cellId (readData (blockData cornerChunk)
           (bx + bz * STRIDE_Z exampleEnv + by * STRIDE_Y exampleEnv)) = 0"
proof -
  from assms have "bx + bz * 16 + by * 256 \<noteq> 0" by linarith
  then have "readData [0x100] (bx + bz * 16 + by * 256) = 0"
    by (simp add: readData_def)
  then show ?thesis by (simp add: cornerChunk_def exampleEnv_def cellId_def)
qed

lemma corner_interior: "interiorPass exampleEnv cornerChunk 0 = ([], None)"
  unfolding interiorPass_def
proof (intro forEach_air)
  fix "by" bz bx :: int
  assume "by \<in> set [0..0 + SIZE - 1]" "bz \<in> set [1..SIZE - 2]" "bx \<in> set [1..SIZE - 2]"
  then have "0 \<le> bx" "0 \<le> bz" "0 \<le> by" "bx \<noteq> 0 \<or> bz \<noteq> 0 \<or> by \<noteq> 0" by simp_all
  from air_cell(1) [OF corner_air [OF this]]
  show "interiorCell exampleEnv cornerChunk 0 by bz bx = ([], None)" .
qed

lemma corner_column_air:
  assumes "0 \<le> bx" "0 \<le> bz" "(bx, bz) \<noteq> (0, 0)"
  shows "addFaces exampleEnv cornerChunk 0 bx 0 (0 + SIZE - 1) bz ncs = ([], None)"
  unfolding addFaces_def
proof (intro forEach_air)
  fix "by" :: int
  assume "by \<in> set [0..0 + SIZE - 1]"
  with assms have "0 \<le> bx" "0 \<le> bz" "0 \<le> by" "bx \<noteq> 0 \<or> bz \<noteq> 0 \<or> by \<noteq> 0" by auto
  from air_cell(2) [OF corner_air [OF this]]
  show "addFacesCell exampleEnv cornerChunk 0 bx bz ncs by = ([], None)" .
qed

lemma corner_column:
  "addFaces exampleEnv cornerChunk 0 0 0 15 0 (neighborChunksOf exampleEnv cornerChunk) =
     ([GetBlockWithId 1,
       GetFaceSlot 1 0 0 0 0 0 0x100, AddFace 0 0 0 0 [0, 0, 1, 1],
       GetFaceSlot 1 0 0 0 1 0 0x100, AddFace 1 0 0 0 [0, 0, 1, 1],
       GetFaceSlot 1 0 0 0 2 0 0x100, AddFace 2 0 0 0 [0, 0, 1, 1],
       GetFaceSlot 1 0 0 0 4 0 0x100, AddFace 4 0 0 0 [0, 0, 1, 1],
       GetFaceSlot 1 0 0 0 5 0 0x100, AddFace 5 0 0 0 [0, 0, 1, 1]], None)"
  by code_simp

lemma ring_tail:
  "ringCells = (0, 0) # tl ringCells"
  "\<forall>p\<in>set (tl ringCells). 0 \<le> fst p \<and> 0 \<le> snd p \<and> p \<noteq> (0, 0)"
  by code_simp+

lemma corner_boundary:
  "boundaryPass exampleEnv cornerChunk 0 =
     addFaces exampleEnv cornerChunk 0 0 0 15 0 (neighborChunksOf exampleEnv cornerChunk)"
proof -
  let ?col = "\<lambda>(bx, bz). addFaces exampleEnv cornerChunk 0 bx 0 (0 + SIZE - 1) bz
      (neighborChunksOf exampleEnv cornerChunk)"
  have rest: "forEach ?col (tl ringCells) = ([], None)"
  proof (rule forEach_air)
    fix p assume "p \<in> set (tl ringCells)"
    with ring_tail(2) have "0 \<le> fst p" "0 \<le> snd p" "(fst p, snd p) \<noteq> (0, 0)" by auto
    from corner_column_air [OF this] show "?col p = ([], None)"
      by (simp add: case_prod_unfold)
  qed
  have "boundaryPass exampleEnv cornerChunk 0 = forEach ?col ((0, 0) # tl ringCells)"
    unfolding boundaryPass_def Let_def using ring_tail(1) by simp
  also have "\<dots> = ?col (0, 0)"
    using rest corner_column by (simp add: SIZE_def)
  finally show ?thesis by (simp add: SIZE_def)
qed

lemma corner_build:
  "buildEvents exampleEnv cornerChunk 0 =
     addFaces exampleEnv cornerChunk 0 0 0 15 0 (neighborChunksOf exampleEnv cornerChunk)"
  by (simp add: buildEvents_def corner_interior corner_boundary corner_column)

lemma corner_faces:
  assumes "chunk r = cornerChunk" "seg_by r = 0"
  shows "snd (buildEvents exampleEnv (chunk r) (seg_by r)) = None"
    and "buildFaces exampleEnv r =
      [AddFace 0 0 0 0 [0, 0, 1, 1], AddFace 1 0 0 0 [0, 0, 1, 1], AddFace 2 0 0 0 [0, 0, 1, 1],
       AddFace 4 0 0 0 [0, 0, 1, 1], AddFace 5 0 0 0 [0, 0, 1, 1]]"
  using assms by (simp_all add: buildFaces_def corner_build corner_column facesOf_def)

lemma corner_build_step:
  assumes "chunk r = cornerChunk" "seg_by r = 0" "builderFaces g = []"
  shows "build exampleEnv exampleFinish (r, g) =
     (Inr (80 - estimatedSize r),
      r\<lparr>dirty := False, faceBuffer := Some \<lparr>handle = 7, byteSize = 80\<rparr>,
        faceBufferElementCount := 30, estimatedSize := 80\<rparr>,
      g\<lparr>glBuffers := insert 7 (glBuffers g), builderFaces := []\<rparr>)"
proof (cases rule: build_cases [of exampleEnv r exampleFinish g])
  case (failed err)
  with corner_faces(1) [OF assms(1,2)] show ?thesis by simp
next
  case completed
  then show ?thesis
    by (simp add: corner_faces(2) [OF assms(1,2)] assms(3) exampleFinish_def)
qed

lemma corner_run:
  "fst (run exampleHost exampleEnv exampleFinish [Build, Restore, Build]
     (cornerRenderer, emptyGraphics)) = [80, 0]"
  "estimatedSize (fst (snd (run exampleHost exampleEnv exampleFinish [Build, Restore, Build]
     (cornerRenderer, emptyGraphics)))) = 80"
  "heldBytes (fst (snd (run exampleHost exampleEnv exampleFinish [Build, Restore, Build]
     (cornerRenderer, emptyGraphics)))) = 80"
proof -
  let ?r1 = "cornerRenderer\<lparr>dirty := False, faceBuffer := Some \<lparr>handle = 7, byteSize = 80\<rparr>,
        faceBufferElementCount := 30, estimatedSize := 80\<rparr>"
  let ?g1 = "emptyGraphics\<lparr>glBuffers := insert 7 (glBuffers emptyGraphics), builderFaces := []\<rparr>"
  obtain r2 g2 where rs: "restore exampleHost (?r1, ?g1) = (r2, g2)"
    by (cases "restore exampleHost (?r1, ?g1)")
  let ?r3 = "r2\<lparr>dirty := False, faceBuffer := Some \<lparr>handle = 7, byteSize = 80\<rparr>,
        faceBufferElementCount := 30, estimatedSize := 80\<rparr>"
  let ?g3 = "g2\<lparr>glBuffers := insert 7 (glBuffers g2), builderFaces := []\<rparr>"
  have b1: "build exampleEnv exampleFinish (cornerRenderer, emptyGraphics) = (Inr 80, ?r1, ?g1)"
    using corner_build_step [of cornerRenderer emptyGraphics]
    by (simp add: cornerRenderer_def emptyGraphics_def)
  from rs have r2: "chunk r2 = cornerChunk" "seg_by r2 = 0" "estimatedSize r2 = 80"
    and g2: "builderFaces g2 = []"
    by (auto simp: restore_def exampleHost_def Let_def cornerRenderer_def)
  have b2: "build exampleEnv exampleFinish (r2, g2) = (Inr 0, ?r3, ?g3)"
    using corner_build_step [OF r2(1,2) g2] r2(3) by simp
  have s1: "step exampleHost exampleEnv exampleFinish Build (cornerRenderer, emptyGraphics) =
      ([80], ?r1, ?g1)"
    by (simp only: step.simps b1 prod.case sum.case)
  have s2: "step exampleHost exampleEnv exampleFinish Restore (?r1, ?g1) = ([], r2, g2)"
    by (simp only: step.simps rs)
  have s3: "step exampleHost exampleEnv exampleFinish Build (r2, g2) = ([0], ?r3, ?g3)"
    by (simp only: step.simps b2 prod.case sum.case)
  have "run exampleHost exampleEnv exampleFinish [Build, Restore, Build]
     (cornerRenderer, emptyGraphics) = ([80, 0], ?r3, ?g3)"
    by (simp only: run.simps s1 s2 s3 prod.case append.simps)
  then show "fst (run exampleHost exampleEnv exampleFinish [Build, Restore, Build]
     (cornerRenderer, emptyGraphics)) = [80, 0]"
    "estimatedSize (fst (snd (run exampleHost exampleEnv exampleFinish [Build, Restore, Build]
     (cornerRenderer, emptyGraphics)))) = 80"
    "heldBytes (fst (snd (run exampleHost exampleEnv exampleFinish [Build, Restore, Build]
     (cornerRenderer, emptyGraphics)))) = 80"
    by (simp_all add: heldBytes_def)
qed

lemma example_contracts:
  "finishReportsSize exampleFinish" "hostLeavesBuffer exampleHost"
proof -
  show "finishReportsSize exampleFinish"
    by (simp add: finishReportsSize_def exampleFinish_def)
  show "hostLeavesBuffer exampleHost"
    unfolding hostLeavesBuffer_def
    by (intro conjI allI leavesBufferI) (simp_all add: exampleHost_def)
qed

text \<open>
  Claim C7. A \<open>build()\<close> whose mesher completes hands the accumulated faces to
  \<open>finish\<close>, takes over the buffer and the element count of its result, sets
  \<open>estimatedSize\<close> to its \<open>bytesUsed\<close> and returns that minus the old \<open>estimatedSize\<close>; a
  \<open>build()\<close> that fails leaves buffer and accounting as they were. \<open>discard()\<close> leaves no
  buffer and size 0. No other call (\<open>invalidate\<close>, \<open>setDebugVisuals\<close>, \<open>render\<close>,
  \<open>renderDebug\<close>, \<open>restore\<close>, \<open>disposeInternal\<close>) changes them or returns a delta, the calls
  into the base class and the view renderer leaving them alone. Hence, \<open>finish\<close> reporting
  the byte size of the buffer it returns, \<open>estimatedSize\<close> equals the byte size of the
  buffer held (0 when none) after any sequence of calls; the deltas of any calls without a
  discard sum to the final \<open>estimatedSize\<close> minus the initial one, and those of N
  consecutive builds from size 0 to the final \<open>estimatedSize\<close>.
\<close>

theorem size_accounting:
  assumes fin: "finishReportsSize fin" and host: "hostLeavesBuffer h"
  shows "(snd (buildEvents e (chunk r) (seg_by r)) = None \<longrightarrow>
            (let res = fst (fin (builderFaces g @ buildFaces e r) (faceBuffer r) (glBuffers g)) in
             build e fin (r, g) =
               (Inr (bytesUsed res - estimatedSize r),
                r\<lparr>dirty := False, faceBuffer := buffer res,
                  faceBufferElementCount := elementCount res, estimatedSize := bytesUsed res\<rparr>,
                g\<lparr>glBuffers := snd (fin (builderFaces g @ buildFaces e r) (faceBuffer r) (glBuffers g)),
                  builderFaces := []\<rparr>) \<and>
             bytesUsed res = heldBytes (fst (snd (build e fin (r, g)))))) \<and>
         (snd (buildEvents e (chunk r) (seg_by r)) \<noteq> None \<longrightarrow>
            (\<exists>err. fst (build e fin (r, g)) = Inl err) \<and>
            faceBuffer (fst (snd (build e fin (r, g)))) = faceBuffer r \<and>
            faceBufferElementCount (fst (snd (build e fin (r, g)))) = faceBufferElementCount r \<and>
            estimatedSize (fst (snd (build e fin (r, g)))) = estimatedSize r) \<and>
         (call \<noteq> Build \<and> call \<noteq> Discard \<longrightarrow>
            fst (step h e fin call s) = [] \<and>
            faceBuffer (fst (snd (step h e fin call s))) = faceBuffer (fst s) \<and>
            faceBufferElementCount (fst (snd (step h e fin call s))) = faceBufferElementCount (fst s) \<and>
            estimatedSize (fst (snd (step h e fin call s))) = estimatedSize (fst s)) \<and>
         faceBuffer (fst (discard s)) = None \<and>
         faceBufferElementCount (fst (discard s)) = 0 \<and>
         estimatedSize (fst (discard s)) = 0 \<and>
         (estimatedSize (fst s) = heldBytes (fst s) \<longrightarrow>
            estimatedSize (fst (snd (run h e fin ops s))) = heldBytes (fst (snd (run h e fin ops s)))) \<and>
         (Discard \<notin> set ops \<longrightarrow>
            sum_list (fst (run h e fin ops s)) =
              estimatedSize (fst (snd (run h e fin ops s))) - estimatedSize (fst s)) \<and>
         (estimatedSize (fst s) = 0 \<longrightarrow>
            sum_list (fst (run h e fin (replicate N Build) s)) =
              estimatedSize (fst (snd (run h e fin (replicate N Build) s))))"
proof -
  let ?res = "fst (fin (builderFaces g @ buildFaces e r) (faceBuffer r) (glBuffers g))"
  have completes: "build e fin (r, g) =
               (Inr (bytesUsed ?res - estimatedSize r),
                r\<lparr>dirty := False, faceBuffer := buffer ?res,
                  faceBufferElementCount := elementCount ?res, estimatedSize := bytesUsed ?res\<rparr>,
                g\<lparr>glBuffers := snd (fin (builderFaces g @ buildFaces e r) (faceBuffer r) (glBuffers g)),
                  builderFaces := []\<rparr>) \<and>
             bytesUsed ?res = heldBytes (fst (snd (build e fin (r, g))))"
    if ok: "snd (buildEvents e (chunk r) (seg_by r)) = None"
  proof (cases rule: build_cases [of e r fin g])
    case (failed err)
    with ok show ?thesis by simp
  next
    case completed
    from fin have "bytesUsed ?res = (case buffer ?res of None \<Rightarrow> 0 | Some b \<Rightarrow> byteSize b)"
      unfolding finishReportsSize_def by blast
    with completed(2) show ?thesis by (simp add: heldBytes_def)
  qed
  have failing: "(\<exists>err. fst (build e fin (r, g)) = Inl err) \<and>
            faceBuffer (fst (snd (build e fin (r, g)))) = faceBuffer r \<and>
            faceBufferElementCount (fst (snd (build e fin (r, g)))) = faceBufferElementCount r \<and>
            estimatedSize (fst (snd (build e fin (r, g)))) = estimatedSize r"
    if bad: "snd (buildEvents e (chunk r) (seg_by r)) \<noteq> None"
  proof (cases rule: build_cases [of e r fin g])
    case (failed err)
    then show ?thesis by simp
  next
    case completed
    with bad show ?thesis by simp
  qed
  have frame: "fst (step h e fin call s) = [] \<and>
            faceBuffer (fst (snd (step h e fin call s))) = faceBuffer (fst s) \<and>
            faceBufferElementCount (fst (snd (step h e fin call s))) = faceBufferElementCount (fst s) \<and>
            estimatedSize (fst (snd (step h e fin call s))) = estimatedSize (fst s)"
    if "call \<noteq> Build" "call \<noteq> Discard"
    by (rule step_frame [OF host that])
  have "Discard \<notin> set (replicate N Build)" by simp
  from run_delta [OF host this, of e fin s]
  have builds: "estimatedSize (fst s) = 0 \<longrightarrow>
      sum_list (fst (run h e fin (replicate N Build) s)) =
        estimatedSize (fst (snd (run h e fin (replicate N Build) s)))"
    by simp
  show ?thesis
    unfolding Let_def
    using completes failing frame builds discard_fields [of s]
      run_inv [OF fin host, of s e ops] run_delta [OF host, of ops e fin s]
    by blast
qed

theorem size_accounting_witness:
  "finishReportsSize exampleFinish \<and> hostLeavesBuffer exampleHost \<and>
   snd (buildEvents exampleEnv (chunk cornerRenderer) (seg_by cornerRenderer)) = None \<and>
   build exampleEnv exampleFinish (cornerRenderer, emptyGraphics) =
     (Inr 80,
      cornerRenderer\<lparr>dirty := False, faceBuffer := Some \<lparr>handle = 7, byteSize = 80\<rparr>,
        faceBufferElementCount := 30, estimatedSize := 80\<rparr>,
      emptyGraphics\<lparr>glBuffers := {7}, builderFaces := []\<rparr>) \<and>
   Restore \<noteq> Build \<and> Restore \<noteq> Discard \<and>
   estimatedSize (fst (snd (step exampleHost exampleEnv exampleFinish Restore
     (exampleRenderer, exampleGraphics)))) = 96 \<and>
   Discard \<notin> set [Build, Restore, Build] \<and>
   fst (run exampleHost exampleEnv exampleFinish [Build, Restore, Build]
     (cornerRenderer, emptyGraphics)) = [80, 0] \<and>
   sum_list (fst (run exampleHost exampleEnv exampleFinish [Build, Restore, Build]
     (cornerRenderer, emptyGraphics))) =
     estimatedSize (fst (snd (run exampleHost exampleEnv exampleFinish [Build, Restore, Build]
       (cornerRenderer, emptyGraphics)))) - estimatedSize (fst (cornerRenderer, emptyGraphics)) \<and>
   estimatedSize (fst (snd (run exampleHost exampleEnv exampleFinish [Build, Restore, Build]
     (cornerRenderer, emptyGraphics)))) = 80 \<and>
   heldBytes (fst (snd (run exampleHost exampleEnv exampleFinish [Build, Restore, Build]
     (cornerRenderer, emptyGraphics)))) = 80"
proof -
  note inst = size_accounting [OF example_contracts, where e = exampleEnv and r = cornerRenderer
      and g = emptyGraphics and call = Restore and s = "(cornerRenderer, emptyGraphics)"
      and ops = "[Build, Restore, Build]" and N = 0]
  note inst' = size_accounting [OF example_contracts, where e = exampleEnv and r = cornerRenderer
      and g = emptyGraphics and call = Restore and s = "(exampleRenderer, exampleGraphics)"
      and ops = "[]" and N = 0]
  have ok: "snd (buildEvents exampleEnv (chunk cornerRenderer) (seg_by cornerRenderer)) = None"
    by (rule corner_faces(1)) (simp_all add: cornerRenderer_def)
  have faces: "buildFaces exampleEnv cornerRenderer =
      [AddFace 0 0 0 0 [0, 0, 1, 1], AddFace 1 0 0 0 [0, 0, 1, 1], AddFace 2 0 0 0 [0, 0, 1, 1],
       AddFace 4 0 0 0 [0, 0, 1, 1], AddFace 5 0 0 0 [0, 0, 1, 1]]"
    by (rule corner_faces(2)) (simp_all add: cornerRenderer_def)
  have fields: "builderFaces emptyGraphics = []" "glBuffers emptyGraphics = {}"
    "faceBuffer cornerRenderer = None" "estimatedSize cornerRenderer = 0"
    by (simp_all add: emptyGraphics_def cornerRenderer_def)
  have fin5: "exampleFinish
      [AddFace 0 0 0 0 [0, 0, 1, 1], AddFace 1 0 0 0 [0, 0, 1, 1], AddFace 2 0 0 0 [0, 0, 1, 1],
       AddFace 4 0 0 0 [0, 0, 1, 1], AddFace 5 0 0 0 [0, 0, 1, 1]] None {} =
      (\<lparr>buffer = Some \<lparr>handle = 7, byteSize = 80\<rparr>, elementCount = 30, bytesUsed = 80\<rparr>, {7})"
    by (simp add: exampleFinish_def)
  from inst [THEN conjunct1, THEN mp, OF ok]
  have b: "build exampleEnv exampleFinish (cornerRenderer, emptyGraphics) =
     (Inr 80,
      cornerRenderer\<lparr>dirty := False, faceBuffer := Some \<lparr>handle = 7, byteSize = 80\<rparr>,
        faceBufferElementCount := 30, estimatedSize := 80\<rparr>,
      emptyGraphics\<lparr>glBuffers := {7}, builderFaces := []\<rparr>)"
    unfolding Let_def faces fields append_Nil fin5 by simp
  have ne: "Restore \<noteq> Build" "Restore \<noteq> Discard" by simp_all
  from inst' [THEN conjunct2, THEN conjunct2, THEN conjunct1, THEN mp, OF conjI [OF ne]]
  have "estimatedSize (fst (snd (step exampleHost exampleEnv exampleFinish Restore
     (exampleRenderer, exampleGraphics)))) = estimatedSize (fst (exampleRenderer, exampleGraphics))"
    by (elim conjE)
  also have "\<dots> = 96" by (simp add: exampleRenderer_def)
  finally have fr: "estimatedSize (fst (snd (step exampleHost exampleEnv exampleFinish Restore
     (exampleRenderer, exampleGraphics)))) = 96" .
  have nd: "Discard \<notin> set [Build, Restore, Build]" by simp
  have tel: "sum_list (fst (run exampleHost exampleEnv exampleFinish [Build, Restore, Build]
     (cornerRenderer, emptyGraphics))) =
     estimatedSize (fst (snd (run exampleHost exampleEnv exampleFinish [Build, Restore, Build]
       (cornerRenderer, emptyGraphics)))) - estimatedSize (fst (cornerRenderer, emptyGraphics))"
    by (rule inst [THEN conjunct2, THEN conjunct2, THEN conjunct2, THEN conjunct2, THEN conjunct2,
          THEN conjunct2, THEN conjunct2, THEN conjunct1, THEN mp, OF nd])
  show ?thesis
    by (intro conjI) (fact example_contracts ok b ne fr nd tel corner_run)+
qed

section \<open>Emission order\<close>

lemma keysOf_append: "keysOf (xs @ ys) = keysOf xs @ keysOf ys"
  by (simp add: keysOf_def facesOf_def)

lemma keysOf_Nil: "keysOf [] = []"
  by (simp add: keysOf_def facesOf_def)

lemma forEach_subseq:
  assumes "\<And>x. x \<in> set xs \<Longrightarrow> subseq (keysOf (fst (f x))) (g x)"
  shows "subseq (keysOf (fst (forEach f xs))) (concat (map g xs))"
  using assms
proof (induction xs)
  case Nil
  then show ?case by (simp add: keysOf_Nil)
next
  case (Cons a xs)
  obtain es r where fa: "f a = (es, r)" by (cases "f a")
  from Cons.prems [of a] fa have a: "subseq (keysOf es) (g a)" by simp
  from Cons have rest: "subseq (keysOf (fst (forEach f xs))) (concat (map g xs))" by simp
  show ?case
  proof (cases r)
    case (Some err)
    with fa a show ?thesis by (auto intro: list_emb_prefix)
  next
    case None
    obtain es' r' where fr: "forEach f xs = (es', r')" by (cases "forEach f xs")
    with rest have "subseq (keysOf es') (concat (map g xs))" by simp
    with a have "subseq (keysOf es @ keysOf es') (g a @ concat (map g xs))"
      by (rule list_emb_append_mono)
    with fa None fr show ?thesis by (simp add: keysOf_append)
  qed
qed

lemma faceStep_keys:
  "subseq (keysOf (fst (faceStep e tb blk bx by bz d nbs n))) [(bx, by - tb, bz, n)]"
  by (auto simp: faceStep_def after_def emitFace_def keysOf_def facesOf_def Let_def
      split: option.splits)

lemma faceLoop_keys:
  "subseq (keysOf (fst (faceLoop e tb bx by bz d nbs))) (map (\<lambda>n. (bx, by - tb, bz, n)) [0..<6])"
proof -
  let ?f = "faceStep e tb (getBlockWithId e (cellId d)) bx by bz d nbs"
  have "subseq (keysOf (fst (forEach ?f [0..<6]))) (concat (map (\<lambda>n. [(bx, by - tb, bz, n)]) [0..<6]))"
    by (rule forEach_subseq) (rule faceStep_keys)
  moreover have "keysOf (fst (faceLoop e tb bx by bz d nbs)) = keysOf (fst (forEach ?f [0..<6]))"
    by (simp add: faceLoop_def after_def keysOf_def facesOf_def)
  moreover have "concat (map (\<lambda>n. [(bx, by - tb, bz, n)]) [0..<6]) = map (\<lambda>n. (bx, by - tb, bz, n)) [0..<6]"
    by (simp add: upt_6)
  ultimately show ?thesis by simp
qed

lemma cell_keys:
  "subseq (keysOf (fst (addFacesCell e c tb bx bz ncs by))) (map (\<lambda>n. (bx, by - tb, bz, n)) [0..<6])"
  using faceLoop_keys
  by (simp add: addFacesCell_def Let_def keysOf_Nil del: upt_Suc)

lemma upto_shift: "map (\<lambda>i. i - k) [k..k + int m - 1] = [0..int m - 1]"
proof (induction m)
  case 0
  then show ?case by simp
next
  case (Suc m)
  have "[k..k + int (Suc m) - 1] = [k..k + int m - 1] @ [k + int m]"
    using upto_rec2 [of k "k + int m"] by simp
  moreover have "[0..int (Suc m) - 1] = [0..int m - 1] @ [int m]"
    using upto_rec2 [of 0 "int m"] by simp
  ultimately show ?case using Suc by simp
qed

lemma layers_shift:
  "concat (map (\<lambda>by. G (by - tb)) [tb..tb + SIZE - 1]) = concat (map G [0..SIZE - 1])"
proof -
  have "map (\<lambda>by. G (by - tb)) [tb..tb + SIZE - 1] = map G (map (\<lambda>i. i - tb) [tb..tb + SIZE - 1])"
    by simp
  also have "map (\<lambda>i. i - tb) [tb..tb + SIZE - 1] = [0..SIZE - 1]"
    using upto_shift [of tb 16] by (simp add: SIZE_def)
  finally show ?thesis by simp
qed

lemma interior_keys: "subseq (keysOf (fst (interiorPass e c tb))) interiorOrder"
proof -
  let ?G = "\<lambda>y. concat (map (\<lambda>z. concat (map (\<lambda>x. map (\<lambda>n. (x, y, z, n)) [0..<6])
       [1..SIZE - 2])) [1..SIZE - 2])"
  have "subseq (keysOf (fst (referenceInterior e c tb)))
      (concat (map (\<lambda>by. ?G (by - tb)) [tb..tb + SIZE - 1]))"
    unfolding referenceInterior_def
    by (intro forEach_subseq cell_keys)
  then show ?thesis
    unfolding interiorPass_reference interiorOrder_def layers_shift [of ?G tb] .
qed

lemma boundary_keys: "subseq (keysOf (fst (boundaryPass e c tb))) boundaryOrder"
proof -
  let ?G = "\<lambda>x z y. map (\<lambda>n. (x, y, z, n)) [0..<6]"
  have col: "subseq (keysOf (fst (addFaces e c tb bx tb (tb + SIZE - 1) bz ncs)))
      (concat (map (?G bx bz) [0..SIZE - 1]))" for bx bz ncs
  proof -
    have "subseq (keysOf (fst (addFaces e c tb bx tb (tb + SIZE - 1) bz ncs)))
        (concat (map (\<lambda>by. ?G bx bz (by - tb)) [tb..tb + SIZE - 1]))"
      unfolding addFaces_def by (intro forEach_subseq cell_keys)
    then show ?thesis unfolding layers_shift [of "?G bx bz" tb] .
  qed
  have "subseq (keysOf (fst (boundaryPass e c tb)))
      (concat (map (\<lambda>(x, z). concat (map (?G x z) [0..SIZE - 1])) ringCells))"
    unfolding boundaryPass_def Let_def
    by (rule forEach_subseq) (auto intro: col)
  then show ?thesis by (simp add: boundaryOrder_def)
qed

lemma build_keys: "subseq (keysOf (fst (buildEvents e c tb))) (interiorOrder @ boundaryOrder)"
proof -
  obtain es r where i: "interiorPass e c tb = (es, r)" by (cases "interiorPass e c tb")
  obtain es' r' where b: "boundaryPass e c tb = (es', r')" by (cases "boundaryPass e c tb")
  from i interior_keys [of e c tb] have ki: "subseq (keysOf es) interiorOrder" by simp
  from b boundary_keys [of e c tb] have kb: "subseq (keysOf es') boundaryOrder" by simp
  show ?thesis
  proof (cases r)
    case (Some err)
    with i ki show ?thesis by (auto simp: buildEvents_def intro: list_emb_prefix)
  next
    case None
    from ki kb have "subseq (keysOf es @ keysOf es') (interiorOrder @ boundaryOrder)"
      by (rule list_emb_append_mono)
    with i b None show ?thesis
      by (cases r') (simp_all add: buildEvents_def keysOf_append)
  qed
qed

lemma distinct_concat_map:
  assumes "distinct xs"
    and "\<And>x. x \<in> set xs \<Longrightarrow> distinct (f x)"
    and "\<And>x y. x \<in> set xs \<Longrightarrow> y \<in> set xs \<Longrightarrow> x \<noteq> y \<Longrightarrow> set (f x) \<inter> set (f y) = {}"
  shows "distinct (concat (map f xs))"
  using assms
proof (induction xs)
  case Nil
  then show ?case by simp
next
  case (Cons a xs)
  have "distinct (concat (map f xs))"
  proof (rule Cons.IH)
    from Cons.prems(1) show "distinct xs" by simp
    show "distinct (f x)" if "x \<in> set xs" for x using that Cons.prems(2) by simp
    show "set (f x) \<inter> set (f y) = {}" if "x \<in> set xs" "y \<in> set xs" "x \<noteq> y" for x y
      using that by (intro Cons.prems(3)) simp_all
  qed
  moreover from Cons.prems have "distinct (f a)" by simp
  moreover have "set (f a) \<inter> set (f y) = {}" if "y \<in> set xs" for y
  proof -
    from Cons.prems(1) that have "a \<noteq> y" by auto
    with that show ?thesis by (intro Cons.prems(3)) simp_all
  qed
  ultimately show ?case by auto
qed

lemma distinct_dirs: "distinct (map (\<lambda>n. (x, y, z, n)) [0..<6::nat])"
  by (simp add: distinct_map inj_on_def)

lemma distinct_interiorOrder: "distinct interiorOrder"
  unfolding interiorOrder_def
  by (intro distinct_concat_map distinct_upto distinct_dirs) auto

lemma distinct_ringCells: "distinct ringCells"
  unfolding ringCells_def
  by (auto simp: distinct_map inj_on_def SIZE_def)

lemma distinct_boundaryOrder: "distinct boundaryOrder"
proof -
  have "distinct (concat (map (\<lambda>p. concat (map (\<lambda>y. map (\<lambda>n. (fst p, y, snd p, n)) [0..<6])
       [0..SIZE - 1])) ringCells))"
    by (intro distinct_concat_map distinct_upto distinct_dirs distinct_ringCells)
       (auto simp: prod_eq_iff)
  then show ?thesis by (simp add: boundaryOrder_def case_prod_unfold)
qed

lemma set_interiorOrder:
  "k \<in> set interiorOrder \<Longrightarrow> 1 \<le> fst k \<and> fst k \<le> 14 \<and> 1 \<le> fst (snd (snd k)) \<and> fst (snd (snd k)) \<le> 14"
  by (auto simp: interiorOrder_def SIZE_def)

lemma set_boundaryOrder:
  "k \<in> set boundaryOrder \<Longrightarrow> (fst k, fst (snd (snd k))) \<in> set ringCells"
  by (auto simp: boundaryOrder_def)

lemma distinct_order: "distinct (interiorOrder @ boundaryOrder)"
proof -
  have "set interiorOrder \<inter> set boundaryOrder = {}"
  proof (rule ccontr)
    assume "set interiorOrder \<inter> set boundaryOrder \<noteq> {}"
    then obtain k where "k \<in> set interiorOrder" "k \<in> set boundaryOrder" by blast
    from set_interiorOrder [OF this(1)] set_boundaryOrder [OF this(2)]
    show False by (simp add: set_ringCells)
  qed
  with distinct_interiorOrder distinct_boundaryOrder show ?thesis by simp
qed

lemma ringCells_head: "ringCells = (0, 0) # (0, 1) # drop 2 ringCells"
  by code_simp

lemma example_columns:
  "map faceY (facesOf (fst (addFaces exampleEnv exampleChunk 0 0 0 15 0
      (neighborChunksOf exampleEnv exampleChunk)))) = [0, 0, 0, 1, 1, 1, 1, 1]"
  "map faceY (facesOf (fst (addFaces exampleEnv exampleChunk 0 0 0 15 1
      (neighborChunksOf exampleEnv exampleChunk)))) = [0, 0, 0, 0]"
  by code_simp+

lemma example_boundary_ys:
  "\<exists>rest. map faceY (facesOf (fst (boundaryPass exampleEnv exampleChunk 0))) =
     [0, 0, 0, 1, 1, 1, 1, 1] @ [0, 0, 0, 0] @ rest"
proof -
  let ?col = "\<lambda>(bx, bz). addFaces exampleEnv exampleChunk 0 bx 0 15 bz
      (neighborChunksOf exampleEnv exampleChunk)"
  have ok: "snd (boundaryPass exampleEnv exampleChunk 0) = None"
    by (rule build_ok_passes(2) [OF buildEvents_total]) (simp add: exampleEnv_def)
  then have okR: "snd (forEach ?col ringCells) = None"
    by (simp add: boundaryPass_def Let_def SIZE_def)
  have "fst (boundaryPass exampleEnv exampleChunk 0) = fst (forEach ?col ringCells)"
    by (simp add: boundaryPass_def Let_def SIZE_def)
  also have "\<dots> = concat (map (\<lambda>p. fst (?col p)) ringCells)"
    by (rule forEach_fst_ok [OF okR])
  also have "\<dots> = fst (?col (0, 0)) @ fst (?col (0, 1)) @
      concat (map (\<lambda>p. fst (?col p)) (drop 2 ringCells))"
    by (subst ringCells_head) simp
  finally have "map faceY (facesOf (fst (boundaryPass exampleEnv exampleChunk 0))) =
      map faceY (facesOf (fst (?col (0, 0)))) @ map faceY (facesOf (fst (?col (0, 1)))) @
      map faceY (facesOf (concat (map (\<lambda>p. fst (?col p)) (drop 2 ringCells))))"
    by (simp add: facesOf_def)
  then show ?thesis unfolding split_conv example_columns by blast
qed

text \<open>
  Claim C3 says that faces are emitted with Y ascending first. In the boundary pass of the
  example chunk the column at \<open>(0, 0)\<close> gives faces at Y = 0 and then Y = 1, and the next
  column, at \<open>(0, 1)\<close>, gives faces at Y = 0 again: \<open>addFaces_\<close> runs through all Y of one
  ring position before the next position.
\<close>

theorem y_ascending_counterexample:
  "\<not> sorted (map faceY (facesOf (fst (boundaryPass exampleEnv exampleChunk 0)))) \<and>
   \<not> sorted (map faceY (buildFaces exampleEnv exampleRenderer))"
proof -
  from example_boundary_ys obtain rest where
    ys: "map faceY (facesOf (fst (boundaryPass exampleEnv exampleChunk 0))) =
       [0, 0, 0, 1, 1, 1, 1, 1] @ [0, 0, 0, 0] @ rest" ..
  have b: "\<not> sorted (map faceY (facesOf (fst (boundaryPass exampleEnv exampleChunk 0))))"
    unfolding ys by simp
  have ok: "snd (buildEvents exampleEnv exampleChunk 0) = None"
    by (rule buildEvents_total) (simp add: exampleEnv_def)
  then have "fst (buildEvents exampleEnv exampleChunk 0) =
      fst (interiorPass exampleEnv exampleChunk 0) @ fst (boundaryPass exampleEnv exampleChunk 0)"
    unfolding buildEvents_def by (subst forEach_fst_ok) simp_all
  then have "map faceY (buildFaces exampleEnv exampleRenderer) =
      map faceY (facesOf (fst (interiorPass exampleEnv exampleChunk 0))) @
      map faceY (facesOf (fst (boundaryPass exampleEnv exampleChunk 0)))"
    by (simp add: buildFaces_def exampleRenderer_def facesOf_def)
  with b show ?thesis by (simp add: sorted_append)
qed

text \<open>
  Claim C3, amended. The faces \<open>build()\<close> emits are a function of the voxel data, and a
  second \<open>build()\<close> right after the first emits the same list. The interior pass emits
  first, ordered by Y ascending, then Z, then X, then direction 0..5; the boundary pass
  follows, ordered by ring position (the four \<open>addFaces_\<close> loops in call order), then Y
  ascending, then direction 0..5: the emitted faces are a subsequence of this enumeration,
  which has no repetition.
\<close>

theorem emission_order:
  "buildFaces e (fst (snd (build e fin (r, g)))) = buildFaces e r \<and>
   subseq (map faceKey (buildFaces e r)) (interiorOrder @ boundaryOrder) \<and>
   distinct (interiorOrder @ boundaryOrder)"
proof -
  have same: "chunk (fst (snd (build e fin (r, g)))) = chunk r \<and>
      seg_by (fst (snd (build e fin (r, g)))) = seg_by r"
    by (cases rule: build_cases [of e r fin g]) simp_all
  then have "buildFaces e (fst (snd (build e fin (r, g)))) = buildFaces e r"
    by (simp add: buildFaces_def)
  with build_keys [of e "chunk r" "seg_by r"] distinct_order show ?thesis
    by (simp add: buildFaces_def keysOf_def)
qed

end
